theory Spec2Isabelle
  imports Main "HOL-Library.Sublist"
begin

section \<open>Syntax trees of the analysed source\<close>

text \<open>
  The generator (\<^verbatim>\<open>src/api_docs.py\<close>) works on the tree that the interpreter's
  \<^verbatim>\<open>ast.parse\<close> returns. The tree is the input of the model; the node kinds the code
  tests with \<^verbatim>\<open>isinstance\<close> and \<^verbatim>\<open>hasattr\<close> are constructors of their own, every
  other kind of expression is \<open>OtherExpr\<close>.

  Constant values: \<^verbatim>\<open>None\<close>, booleans, integers, strings and \<^verbatim>\<open>...\<close>. Float, complex
  and bytes literals are not represented. A string is a list of characters with a code
  point below 256; a text with another character is not represented.

  The trees are those of the interpreter versions 3.9 to 3.13: the slice of a
  subscript is the expression itself, a tuple when several arguments are written;
  \<^verbatim>\<open>ast.Str\<close> is the name of the constants whose value is a string, and the attribute
  \<^verbatim>\<open>s\<close> of a constant node is its value. The call of a decorator has the callee, the
  positional arguments and the keywords, each keyword with its name (absent for
  \<^verbatim>\<open>**kwargs\<close>) and its value.
\<close>

datatype const = CNone | CBool bool | CInt int | CStr string | CEllipsis

datatype expr =
    Name string
  | Attribute expr string
  | Call expr "expr list" "(string option \<times> expr) list"
  | Subscript expr expr
  | Constant const
  | Tuple "expr list"
  | OtherExpr

datatype error = SyntaxError | AttributeError | TypeError | ValueError | RecursionError

section \<open>Text of constants\<close>

definition digit_char :: "nat \<Rightarrow> char" where
  "digit_char d = char_of (48 + d)"

fun str_nat :: "nat \<Rightarrow> string" where
  "str_nat n = (if n < 10 then [digit_char n] else str_nat (n div 10) @ [digit_char (n mod 10)])"

declare str_nat.simps [simp del]

text \<open>
  \<^verbatim>\<open>str(i)\<close> for an integer: the decimal digits, after a minus sign for a negative
  one. The conversion raises \<^verbatim>\<open>ValueError\<close> when there are more digits than the limit
  of the interpreter, 4300 unless it is configured otherwise.
\<close>

definition max_str_digits :: nat where
  "max_str_digits = 4300"

definition str_int :: "int \<Rightarrow> error + string" where
  "str_int i =
     (if max_str_digits < length (str_nat (nat \<bar>i\<bar>)) then Inl ValueError
      else Inr (if i < 0 then CHR ''-'' # str_nat (nat \<bar>i\<bar>) else str_nat (nat \<bar>i\<bar>)))"

text \<open>\<^verbatim>\<open>str(value)\<close> for a constant value.\<close>

fun str_const :: "const \<Rightarrow> error + string" where
  "str_const CNone = Inr ''None''"
| "str_const (CBool b) = Inr (if b then ''True'' else ''False'')"
| "str_const (CInt i) = str_int i"
| "str_const (CStr s) = Inr s"
| "str_const CEllipsis = Inr ''Ellipsis''"

section \<open>Type-annotation renderer\<close>

text \<open>
  \<^verbatim>\<open>_get_type_hint\<close>: a name renders as its identifier, a subscript as
  \<^verbatim>\<open>f"{value}[{slice_value}]"\<close> with both parts rendered by the same function, the
  value first; a constant as \<^verbatim>\<open>str(node.value)\<close>, every other node as \<^verbatim>\<open>"Any"\<close>.

  Every call of the function takes a frame of the interpreter's stack, and a call for
  which the recursion limit leaves no frame raises \<^verbatim>\<open>RecursionError\<close>. The first
  argument is the number of nested calls of the renderer that still fit.
\<close>

fun get_type_hint :: "nat \<Rightarrow> expr \<Rightarrow> error + string" where
  "get_type_hint 0 e = Inl RecursionError"
| "get_type_hint (Suc n) (Name i) = Inr i"
| "get_type_hint (Suc n) (Subscript v s) =
     (case get_type_hint n v of
        Inl err \<Rightarrow> Inl err
      | Inr value \<Rightarrow>
          (case get_type_hint n s of
             Inl err \<Rightarrow> Inl err
           | Inr slice_value \<Rightarrow> Inr (value @ ''['' @ slice_value @ '']'')))"
| "get_type_hint (Suc n) (Constant c) = str_const c"
| "get_type_hint (Suc n) e = Inr ''Any''"

section \<open>Strings\<close>

text \<open>
  The string methods the code calls, for the characters below 256. \<^verbatim>\<open>str.lower\<close>
  changes the letters A to Z and the upper-case letters from 192 to 222 (not the
  sign 215). \<^verbatim>\<open>str.strip\<close> removes the white space \<^verbatim>\<open>str.isspace\<close> accepts, which is
  also the class \<^verbatim>\<open>\s\<close> of a pattern: tab, line feed, vertical tab, form feed,
  carriage return, the four separators 28 to 31, the blank, and the characters 133
  and 160. \<^verbatim>\<open>split('\n')\<close> cuts at every line feed.
\<close>

definition nl :: string where
  "nl = [CHR 0x0A]"

definition lower_char :: "char \<Rightarrow> char" where
  "lower_char c =
     (let n = (of_char c :: nat)
      in if (65 \<le> n \<and> n \<le> 90) \<or> (192 \<le> n \<and> n \<le> 214) \<or> (216 \<le> n \<and> n \<le> 222)
         then char_of (n + 32) else c)"

definition lower :: "string \<Rightarrow> string" where
  "lower s = map lower_char s"

definition isspace :: "char \<Rightarrow> bool" where
  "isspace c =
     (let n = (of_char c :: nat)
      in (9 \<le> n \<and> n \<le> 13) \<or> (28 \<le> n \<and> n \<le> 32) \<or> n = 133 \<or> n = 160)"

definition strip :: "string \<Rightarrow> string" where
  "strip s = rev (dropWhile isspace (rev (dropWhile isspace s)))"

definition startswith :: "string \<Rightarrow> string \<Rightarrow> bool" where
  "startswith s pre = (take (length pre) s = pre)"

fun split_nl :: "string \<Rightarrow> string list" where
  "split_nl [] = [[]]"
| "split_nl (c # cs) =
     (if c = CHR 0x0A then [] # split_nl cs
      else (case split_nl cs of [] \<Rightarrow> [[c]] | l # ls \<Rightarrow> (c # l) # ls))"

fun join_nl :: "string list \<Rightarrow> string" where
  "join_nl [] = []"
| "join_nl [l] = l"
| "join_nl (l # ls) = l @ nl @ join_nl ls"

text \<open>\<^verbatim>\<open>sub in s\<close> for two strings.\<close>

fun contains :: "string \<Rightarrow> string \<Rightarrow> bool" where
  "contains [] sub = (sub = [])"
| "contains (c # cs) sub = (startswith (c # cs) sub \<or> contains cs sub)"

text \<open>The truth value of a constant, as \<^verbatim>\<open>if path\<close> tests it.\<close>

fun truthy :: "const \<Rightarrow> bool" where
  "truthy CNone = False"
| "truthy (CBool b) = b"
| "truthy (CInt i) = (i \<noteq> 0)"
| "truthy (CStr s) = (s \<noteq> [])"
| "truthy CEllipsis = True"

text \<open>
  Equality of two constants as dictionary keys: \<^verbatim>\<open>True == 1\<close> and \<^verbatim>\<open>False == 0\<close>
  (with equal hashes), every other pair of constants is equal only to itself.
\<close>

fun py_eq :: "const \<Rightarrow> const \<Rightarrow> bool" where
  "py_eq (CBool b) (CInt i) = (i = (if b then 1 else 0))"
| "py_eq (CInt i) (CBool b) = (i = (if b then 1 else 0))"
| "py_eq a b = (a = b)"

section \<open>Function definitions and the module tree\<close>

text \<open>
  Of a function definition the code reads the name, \<^verbatim>\<open>node.args.args\<close> (the
  positional-or-keyword parameters, each with its name and optional annotation),
  \<^verbatim>\<open>node.decorator_list\<close>, \<^verbatim>\<open>node.returns\<close> and \<^verbatim>\<open>ast.get_docstring(node)\<close>; the
  last is a library call and its result is a field of the model.
\<close>

record argument =
  arg :: string
  annotation :: "expr option"

record funcdef =
  name :: string
  args :: "argument list"
  decorator_list :: "expr list"
  returns :: "expr option"
  docstring :: "string option"

text \<open>
  The nodes \<^verbatim>\<open>ast.walk\<close> yields: function definitions, class definitions, and every
  other node, each with its child nodes (the body, for the first two). Expressions
  hold no definitions, so they are left out of the child lists.
\<close>

datatype node =
    FunctionDef funcdef "node list"
  | ClassDef string "node list"
  | OtherNode "node list"

section \<open>Endpoint records and the generator's state\<close>

record parameter =
  param_name :: string
  param_type :: "string option"
  param_required :: bool

record parsed_doc =
  doc_description :: string
  doc_parameters :: "(string \<times> string) list"
  doc_returns :: string
  doc_raises :: "string list"

text \<open>
  The \<^verbatim>\<open>description\<close> of an endpoint is the dictionary \<^verbatim>\<open>_parse_docstring\<close> returns,
  or the empty string \<^verbatim>\<open>""\<close> when the function has no docstring. The field
  \<^verbatim>\<open>method\<close> of \<^verbatim>\<open>APIEndpoint\<close> is \<open>http_method\<close> here, the path is a constant value
  (whatever \<^verbatim>\<open>kw.value.s\<close> gave), and \<^verbatim>\<open>response\<close> is the value of its only key
  \<^verbatim>\<open>type\<close>, if present.
\<close>

datatype docinfo = EmptyStr | Sections parsed_doc

record endpoint =
  path :: const
  http_method :: string
  description :: docinfo
  parameters :: "parameter list"
  response :: "string option"
  auth_required :: bool

datatype log_entry = ErrorParsingApp error | ErrorParsingEndpoint error

text \<open>
  The state: \<^verbatim>\<open>self.endpoints\<close>, and the messages handed to \<^verbatim>\<open>logger.error\<close>.
\<close>

record generator =
  endpoints :: "endpoint list"
  log :: "log_entry list"

definition init :: generator where
  "init = \<lparr>endpoints = [], log = []\<rparr>"

section \<open>Docstring interpreter\<close>

text \<open>Assignment \<^verbatim>\<open>d[k] = v\<close> to a dictionary, kept in insertion order.\<close>

fun dict_set :: "('k \<times> 'v) list \<Rightarrow> 'k \<Rightarrow> 'v \<Rightarrow> ('k \<times> 'v) list" where
  "dict_set [] k v = [(k, v)]"
| "dict_set ((k', v') # d) k v =
     (if k' = k then (k', v) # d else (k', v') # dict_set d k v)"

text \<open>
  The class \<^verbatim>\<open>\w\<close> of a pattern, for the characters below 256: the letters, the
  digits and the underscore of ASCII, and the characters \<^verbatim>\<open>str.isalnum\<close> accepts
  from 170 on.
\<close>

definition is_word :: "char \<Rightarrow> bool" where
  "is_word c =
     (let n = (of_char c :: nat)
      in (48 \<le> n \<and> n \<le> 57) \<or> (65 \<le> n \<and> n \<le> 90) \<or> n = 95 \<or> (97 \<le> n \<and> n \<le> 122)
         \<or> n = 170 \<or> n = 178 \<or> n = 179 \<or> n = 181 \<or> n = 185 \<or> n = 186
         \<or> (188 \<le> n \<and> n \<le> 190) \<or> (192 \<le> n \<and> n \<le> 214) \<or> (216 \<le> n \<and> n \<le> 246)
         \<or> (248 \<le> n \<and> n \<le> 255))"

text \<open>
  \<^verbatim>\<open>re.match(r'\s*(\w+)\s*:\s*(.+)', line)\<close> on a line without line feed, with the
  two groups of a match. Each starred part is greedy; the only backtracking that can
  succeed gives the last white-space character back to the final group when nothing
  else follows the colon.
\<close>

definition param_match :: "string \<Rightarrow> (string \<times> string) option" where
  "param_match line =
     (let r0 = dropWhile isspace line;
          w = takeWhile is_word r0;
          r2 = dropWhile isspace (dropWhile is_word r0)
      in if w = [] then None
         else (case r2 of
                 [] \<Rightarrow> None
               | c # r3 \<Rightarrow>
                   if c \<noteq> CHR '':'' then None
                   else (let r4 = dropWhile isspace r3
                         in if r4 \<noteq> [] then Some (w, r4)
                            else if r3 \<noteq> [] then Some (w, [last r3])
                            else None)))"

datatype doc_section = SDescription | SParameters | SReturns | SRaises

definition empty_sections :: parsed_doc where
  "empty_sections =
     \<lparr>doc_description = [], doc_parameters = [], doc_returns = [], doc_raises = []\<rparr>"

text \<open>One turn of the loop over the lines of \<^verbatim>\<open>_parse_docstring\<close>.\<close>

definition docstring_line :: "string \<Rightarrow> doc_section \<times> parsed_doc \<Rightarrow> doc_section \<times> parsed_doc" where
  "docstring_line raw st =
     (let line = strip raw; current_section = fst st; sections = snd st
      in if startswith (lower line) ''parameters:'' then (SParameters, sections)
         else if startswith (lower line) ''returns:'' then (SReturns, sections)
         else if startswith (lower line) ''raises:'' then (SRaises, sections)
         else if line \<noteq> [] then
           (case current_section of
              SDescription \<Rightarrow>
                (current_section,
                 sections\<lparr>doc_description := doc_description sections @ line @ '' ''\<rparr>)
            | SParameters \<Rightarrow>
                (case param_match line of
                   Some (k, v) \<Rightarrow>
                     (current_section,
                      sections\<lparr>doc_parameters := dict_set (doc_parameters sections) k v\<rparr>)
                 | None \<Rightarrow> (current_section, sections))
            | SReturns \<Rightarrow>
                (current_section,
                 sections\<lparr>doc_returns := doc_returns sections @ line @ '' ''\<rparr>)
            | SRaises \<Rightarrow>
                (current_section,
                 sections\<lparr>doc_raises := doc_raises sections @ [line]\<rparr>))
         else (current_section, sections))"

definition parse_docstring :: "string \<Rightarrow> parsed_doc" where
  "parse_docstring s = snd (fold docstring_line (split_nl s) (SDescription, empty_sections))"

section \<open>Single-endpoint extractor\<close>

text \<open>
  The loop over the positional arguments of a decorator call: every argument that is a
  string literal (\<^verbatim>\<open>isinstance(arg, ast.Str)\<close>) is assigned to \<^verbatim>\<open>path\<close>. The variable
  starts as \<^verbatim>\<open>None\<close>, the constant \<open>CNone\<close>.
\<close>

fun positional_path :: "const \<Rightarrow> expr list \<Rightarrow> const" where
  "positional_path p [] = p"
| "positional_path p (Constant (CStr s) # as) = positional_path (CStr s) as"
| "positional_path p (a # as) = positional_path p as"

text \<open>
  The loop over the keywords: \<^verbatim>\<open>path = kw.value.s\<close> for a keyword named \<^verbatim>\<open>path\<close>.
  The attribute \<^verbatim>\<open>s\<close> of a constant node is its value, of whatever type; no other kind
  of node has it, and reading it raises \<^verbatim>\<open>AttributeError\<close>.
\<close>

fun keyword_path :: "const \<Rightarrow> (string option \<times> expr) list \<Rightarrow> error + const" where
  "keyword_path p [] = Inr p"
| "keyword_path p ((k, v) # kws) =
     (if k = Some ''path''
      then (case v of Constant c \<Rightarrow> keyword_path c kws | _ \<Rightarrow> Inl AttributeError)
      else keyword_path p kws)"

text \<open>
  One decorator. The three variables of the loop are \<^verbatim>\<open>path\<close>, \<^verbatim>\<open>method\<close> (\<open>None\<close> for
  Python's \<^verbatim>\<open>None\<close>) and \<^verbatim>\<open>auth_required\<close>.
\<close>

fun decorator_step ::
  "const \<times> string option \<times> bool \<Rightarrow> expr \<Rightarrow> error + const \<times> string option \<times> bool" where
  "decorator_step (p, m, a) (Call (Attribute obj attr) as kws) =
     (case keyword_path (positional_path p as) kws of
        Inl e \<Rightarrow> Inl e
      | Inr p' \<Rightarrow> Inr (p', Some (lower attr), a))"
| "decorator_step (p, m, a) (Call (Name i) as kws) =
     Inr (p, m, if i = ''requires_auth'' then True else a)"
| "decorator_step st d = Inr st"

fun inspect_decorators ::
  "const \<times> string option \<times> bool \<Rightarrow> expr list \<Rightarrow> error + const \<times> string option \<times> bool" where
  "inspect_decorators st [] = Inr st"
| "inspect_decorators st (d # ds) =
     (case decorator_step st d of
        Inl e \<Rightarrow> Inl e
      | Inr st' \<Rightarrow> inspect_decorators st' ds)"

text \<open>
  The dictionary of one parameter; rendering its annotation may raise. The loop over
  \<^verbatim>\<open>node.args.args[1:]\<close> stops at the first error.
\<close>

definition make_parameter :: "nat \<Rightarrow> argument \<Rightarrow> error + parameter" where
  "make_parameter lim a =
     (case annotation a of
        None \<Rightarrow> Inr \<lparr>param_name = arg a, param_type = None, param_required = True\<rparr>
      | Some t \<Rightarrow>
          (case get_type_hint lim t of
             Inl err \<Rightarrow> Inl err
           | Inr s \<Rightarrow> Inr \<lparr>param_name = arg a, param_type = Some s, param_required = True\<rparr>))"

fun make_parameters :: "nat \<Rightarrow> argument list \<Rightarrow> error + parameter list" where
  "make_parameters lim [] = Inr []"
| "make_parameters lim (a # as) =
     (case make_parameter lim a of
        Inl err \<Rightarrow> Inl err
      | Inr q \<Rightarrow>
          (case make_parameters lim as of
             Inl err \<Rightarrow> Inl err
           | Inr qs \<Rightarrow> Inr (q # qs)))"

definition make_response :: "nat \<Rightarrow> expr option \<Rightarrow> error + string option" where
  "make_response lim r =
     (case r of
        None \<Rightarrow> Inr None
      | Some t \<Rightarrow> (case get_type_hint lim t of Inl err \<Rightarrow> Inl err | Inr s \<Rightarrow> Inr (Some s)))"

definition make_description :: "string option \<Rightarrow> docinfo" where
  "make_description d =
     (case d of None \<Rightarrow> EmptyStr
      | Some t \<Rightarrow> if t \<noteq> [] then Sections (parse_docstring t) else EmptyStr)"

text \<open>\<^verbatim>\<open>if path and method\<close>.\<close>

definition path_and_method :: "const \<Rightarrow> string option \<Rightarrow> bool" where
  "path_and_method p m = (truthy p \<and> (case m of None \<Rightarrow> False | Some t \<Rightarrow> t \<noteq> []))"

text \<open>
  The body of \<^verbatim>\<open>if path and method\<close>: the docstring, the parameters, the return
  type, the endpoint.
\<close>

definition build_endpoint ::
  "nat \<Rightarrow> funcdef \<Rightarrow> const \<Rightarrow> string \<Rightarrow> bool \<Rightarrow> error + endpoint" where
  "build_endpoint lim f p m a =
     (case make_parameters lim (drop 1 (args f)) of
        Inl err \<Rightarrow> Inl err
      | Inr qs \<Rightarrow>
          (case make_response lim (returns f) of
             Inl err \<Rightarrow> Inl err
           | Inr r \<Rightarrow>
               Inr \<lparr>path = p,
                    http_method = m,
                    description = make_description (docstring f),
                    parameters = qs,
                    response = r,
                    auth_required = a\<rparr>))"

text \<open>
  The body of the \<^verbatim>\<open>try\<close> of \<^verbatim>\<open>_parse_endpoint\<close>: the error raised, or the endpoint
  that is appended, if any. \<open>lim\<close> is the number of nested calls of the renderer that
  fit on the stack above the frame of \<^verbatim>\<open>_parse_endpoint\<close>; the other calls made
  there are taken to fit.
\<close>

definition extract_endpoint :: "nat \<Rightarrow> funcdef \<Rightarrow> error + endpoint option" where
  "extract_endpoint lim f =
     (case inspect_decorators (CNone, None, False) (decorator_list f) of
        Inl e \<Rightarrow> Inl e
      | Inr (p, m, a) \<Rightarrow>
          if path_and_method p m
          then (case build_endpoint lim f p (the m) a of
                  Inl e \<Rightarrow> Inl e
                | Inr ep \<Rightarrow> Inr (Some ep))
          else Inr None)"

text \<open>\<^verbatim>\<open>_parse_endpoint\<close>, with its handler: an error is logged and nothing else happens.\<close>

definition parse_endpoint :: "nat \<Rightarrow> funcdef \<Rightarrow> generator \<Rightarrow> generator" where
  "parse_endpoint lim f g =
     (case extract_endpoint lim f of
        Inl e \<Rightarrow> g\<lparr>log := log g @ [ErrorParsingEndpoint e]\<rparr>
      | Inr None \<Rightarrow> g
      | Inr (Some ep) \<Rightarrow> g\<lparr>endpoints := endpoints g @ [ep]\<rparr>)"

section \<open>Structural parser\<close>

fun parse_router_class :: "nat \<Rightarrow> node list \<Rightarrow> generator \<Rightarrow> generator" where
  "parse_router_class lim [] g = g"
| "parse_router_class lim (FunctionDef f b # items) g =
     parse_router_class lim items (parse_endpoint lim f g)"
| "parse_router_class lim (item # items) g = parse_router_class lim items g"

fun children :: "node \<Rightarrow> node list" where
  "children (FunctionDef f b) = b"
| "children (ClassDef c b) = b"
| "children (OtherNode b) = b"

fun nodes_size :: "node list \<Rightarrow> nat" where
  "nodes_size [] = 0"
| "nodes_size (n # ns) = size n + nodes_size ns"

text \<open>
  \<^verbatim>\<open>ast.walk\<close>: the nodes in the order they leave a queue, the children of each node
  joining the queue at its end.
\<close>

function walk :: "node list \<Rightarrow> node list" where
  "walk [] = []"
| "walk (n # todo) = n # walk (todo @ children n)"
  by pat_completeness auto

termination
proof (relation "measure nodes_size")
  show "wf (measure nodes_size)"
    by simp
next
  fix n :: node and todo :: "node list"
  have app: "nodes_size (xs @ ys) = nodes_size xs + nodes_size ys" for xs ys
    by (induction xs) simp_all
  have le: "nodes_size b \<le> size_list size b" for b
    by (induction b) simp_all
  have "nodes_size (children n) < size n"
    using le [of "children n"] by (cases n) simp_all
  then show "(todo @ children n, n # todo) \<in> measure nodes_size"
    by (simp add: app)
qed

text \<open>
  The body of the loop over the nodes. \<open>lim\<close> is the number of nested calls of the
  renderer that fit when \<^verbatim>\<open>_parse_endpoint\<close> is called through
  \<^verbatim>\<open>_parse_router_class\<close>; called by the loop itself it stands one frame lower, and
  one call more fits.
\<close>

fun visit :: "nat \<Rightarrow> node \<Rightarrow> generator \<Rightarrow> generator" where
  "visit lim (ClassDef c b) g = parse_router_class lim b g"
| "visit lim (FunctionDef f b) g = parse_endpoint (Suc lim) f g"
| "visit lim (OtherNode b) g = g"

text \<open>
  \<^verbatim>\<open>parse_fastapi_app\<close>. The library's parser \<^verbatim>\<open>ast.parse\<close> is a parameter: it
  returns the root of the tree or raises. The handler of the function logs the error.
\<close>

definition parse_fastapi_app ::
  "nat \<Rightarrow> (string \<Rightarrow> error + node) \<Rightarrow> string \<Rightarrow> generator \<Rightarrow> generator" where
  "parse_fastapi_app lim ast_parse code g =
     (case ast_parse code of
        Inl e \<Rightarrow> g\<lparr>log := log g @ [ErrorParsingApp e]\<rparr>
      | Inr tree \<Rightarrow> fold (visit lim) (walk [tree]) g)"

section \<open>OpenAPI emitter\<close>

record openapi_parameter =
  p_name :: string
  p_in :: string
  p_required :: bool
  p_schema_type :: string

record operation =
  summary :: string
  op_parameters :: "openapi_parameter list"
  response_schema_type :: string
  security :: "(string \<times> string list) list option"

record openapi_spec =
  openapi :: string
  info :: "(string \<times> string) list"
  paths :: "(const \<times> (string \<times> operation) list) list"

text \<open>
  One entry of the \<^verbatim>\<open>parameters\<close> list, for an endpoint whose path is the string \<open>p\<close>.
  An absent type and the empty string are both false in
  \<^verbatim>\<open>param['type'].lower() if param['type'] else 'string'\<close>.
\<close>

definition openapi_param :: "string \<Rightarrow> parameter \<Rightarrow> openapi_parameter" where
  "openapi_param p q =
     \<lparr>p_name = param_name q,
      p_in = (if contains p (''{'' @ param_name q @ ''}'') then ''path'' else ''query''),
      p_required = param_required q,
      p_schema_type = (case param_type q of
                         None \<Rightarrow> ''string''
                       | Some t \<Rightarrow> if t \<noteq> [] then lower t else ''string'')\<rparr>"

text \<open>
  The dictionary stored under \<^verbatim>\<open>paths[path][method]\<close>. Its fields are evaluated in
  order: \<^verbatim>\<open>endpoint.description.get\<close> raises \<^verbatim>\<open>AttributeError\<close> when the description is
  the empty string, and \<^verbatim>\<open>... in endpoint.path\<close> raises \<^verbatim>\<open>TypeError\<close> for the first
  parameter when the path is not a string.
\<close>

definition openapi_operation :: "endpoint \<Rightarrow> error + operation" where
  "openapi_operation e =
     (case description e of
        EmptyStr \<Rightarrow> Inl AttributeError
      | Sections d \<Rightarrow>
          (case (case path e of
                   CStr p \<Rightarrow> Inr (map (openapi_param p) (parameters e))
                 | _ \<Rightarrow> if parameters e = [] then Inr [] else Inl TypeError) of
             Inl err \<Rightarrow> Inl err
           | Inr ps \<Rightarrow>
               Inr \<lparr>summary = doc_description d,
                    op_parameters = ps,
                    response_schema_type =
                      lower (case response e of None \<Rightarrow> ''object'' | Some t \<Rightarrow> t),
                    security = (if auth_required e then Some [(''bearerAuth'', [])]
                                else None)\<rparr>))"

text \<open>\<^verbatim>\<open>d[method] = op\<close> and \<^verbatim>\<open>paths[path][method] = op\<close>, the inner dictionary created
  when the path is new.\<close>

fun set_operation ::
  "(const \<times> (string \<times> operation) list) list \<Rightarrow> const \<Rightarrow> string \<Rightarrow> operation
     \<Rightarrow> (const \<times> (string \<times> operation) list) list" where
  "set_operation [] p m op = [(p, [(m, op)])]"
| "set_operation ((p', ms) # ps) p m op =
     (if py_eq p' p then (p', dict_set ms m op) # ps
      else (p', ms) # set_operation ps p m op)"

fun openapi_paths ::
  "(const \<times> (string \<times> operation) list) list \<Rightarrow> endpoint list
     \<Rightarrow> error + (const \<times> (string \<times> operation) list) list" where
  "openapi_paths ps [] = Inr ps"
| "openapi_paths ps (e # es) =
     (case openapi_operation e of
        Inl err \<Rightarrow> Inl err
      | Inr op \<Rightarrow> openapi_paths (set_operation ps (path e) (http_method e) op) es)"

definition generate_openapi_spec :: "generator \<Rightarrow> error + openapi_spec" where
  "generate_openapi_spec g =
     (case openapi_paths [] (endpoints g) of
        Inl err \<Rightarrow> Inl err
      | Inr ps \<Rightarrow>
          Inr \<lparr>openapi = ''3.0.0'',
               info = [(''title'', ''API Documentation''), (''version'', ''1.0.0'')],
               paths = ps\<rparr>)"

text \<open>Reading \<^verbatim>\<open>paths[path][method]\<close>.\<close>

fun get_path :: "(const \<times> 'v) list \<Rightarrow> const \<Rightarrow> 'v option" where
  "get_path [] p = None"
| "get_path ((p', v) # ps) p = (if py_eq p' p then Some v else get_path ps p)"

definition get_operation ::
  "(const \<times> (string \<times> operation) list) list \<Rightarrow> const \<Rightarrow> string \<Rightarrow> operation option" where
  "get_operation ps p m = (case get_path ps p of None \<Rightarrow> None | Some ms \<Rightarrow> map_of ms m)"

section \<open>Markdown emitter\<close>

text \<open>\<^verbatim>\<open>grouped_endpoints\<close>: the endpoints of each path, the paths in the order they
  are first seen.\<close>

fun group_add :: "(const \<times> endpoint list) list \<Rightarrow> endpoint \<Rightarrow> (const \<times> endpoint list) list" where
  "group_add [] e = [(path e, [e])]"
| "group_add ((p', es) # gs) e =
     (if py_eq p' (path e) then (p', es @ [e]) # gs else (p', es) # group_add gs e)"

definition group_endpoints :: "endpoint list \<Rightarrow> (const \<times> endpoint list) list" where
  "group_endpoints es = foldl group_add [] es"

text \<open>The row of the parameter table; \<^verbatim>\<open>None\<close> is formatted as the text \<^verbatim>\<open>None\<close>.\<close>

definition markdown_param :: "parsed_doc \<Rightarrow> parameter \<Rightarrow> string" where
  "markdown_param d q =
     ''| '' @ param_name q @ '' | ''
       @ (case param_type q of None \<Rightarrow> ''None'' | Some t \<Rightarrow> t) @ '' | ''
       @ (if param_required q then ''Yes'' else ''No'') @ '' | ''
       @ (case map_of (doc_parameters d) (param_name q) of None \<Rightarrow> [] | Some t \<Rightarrow> t)
       @ '' |''"

text \<open>
  The lines appended for one endpoint; the first \<^verbatim>\<open>endpoint.description.get\<close>
  raises when the description is the empty string. \<^verbatim>\<open>str.upper\<close> is a parameter,
  \<open>str_upper\<close>: the upper case of the characters 181 and 255 is no character below
  256.
\<close>

definition markdown_endpoint :: "(string \<Rightarrow> string) \<Rightarrow> endpoint \<Rightarrow> error + string list" where
  "markdown_endpoint str_upper e =
     (case description e of
        EmptyStr \<Rightarrow> Inl AttributeError
      | Sections d \<Rightarrow>
          Inr ([''### '' @ str_upper (http_method e) @ nl, doc_description d @ nl]
               @ (if auth_required e then [''**Requires Authentication**'' @ nl] else [])
               @ (if parameters e \<noteq> []
                  then [nl @ ''#### Parameters'' @ nl,
                        ''| Name | Type | Required | Description |'',
                        ''|------|------|----------|-------------|'']
                       @ map (markdown_param d) (parameters e)
                  else [])
               @ (case response e of
                    None \<Rightarrow> []
                  | Some t \<Rightarrow> [nl @ ''#### Response'' @ nl, ''Type: '' @ t @ nl,
                               ''Description: '' @ doc_returns d @ nl])
               @ (if doc_raises d \<noteq> []
                  then (nl @ ''#### Errors'' @ nl) # map (\<lambda>r. ''- '' @ r @ nl) (doc_raises d)
                  else [])
               @ [nl @ ''---'' @ nl]))"

fun collect :: "('a \<Rightarrow> error + string list) \<Rightarrow> 'a list \<Rightarrow> error + string list" where
  "collect f [] = Inr []"
| "collect f (x # xs) =
     (case f x of
        Inl err \<Rightarrow> Inl err
      | Inr ls \<Rightarrow> (case collect f xs of Inl err \<Rightarrow> Inl err | Inr ms \<Rightarrow> Inr (ls @ ms)))"

text \<open>
  The heading of a path, \<^verbatim>\<open>f"## {path}\n"\<close>, formats the key of the group with
  \<^verbatim>\<open>str\<close>, before the lines of its endpoints.
\<close>

definition markdown_path ::
  "(string \<Rightarrow> string) \<Rightarrow> const \<times> endpoint list \<Rightarrow> error + string list" where
  "markdown_path str_upper g =
     (case str_const (fst g) of
        Inl err \<Rightarrow> Inl err
      | Inr t \<Rightarrow>
          (case collect (markdown_endpoint str_upper) (snd g) of
             Inl err \<Rightarrow> Inl err
           | Inr ls \<Rightarrow> Inr ((''## '' @ t @ nl) # ls)))"

definition markdown_lines :: "(string \<Rightarrow> string) \<Rightarrow> generator \<Rightarrow> error + string list" where
  "markdown_lines str_upper g =
     (case collect (markdown_path str_upper) (group_endpoints (endpoints g)) of
        Inl err \<Rightarrow> Inl err
      | Inr ls \<Rightarrow> Inr ((''# API Documentation'' @ nl @ nl) # ls))"

definition generate_markdown_docs :: "(string \<Rightarrow> string) \<Rightarrow> generator \<Rightarrow> error + string" where
  "generate_markdown_docs str_upper g =
     (case markdown_lines str_upper g of Inl err \<Rightarrow> Inl err | Inr ls \<Rightarrow> Inr (join_nl ls))"

section \<open>Example inputs\<close>

text \<open>
  A top-level handler:
  \<^verbatim>\<open>
  @router.get("/x/{id}")
  def read_item(item_id: int, q): ...
  \<close>
\<close>

definition handler_get_x :: funcdef where
  "handler_get_x =
     \<lparr>name = ''read_item'',
      args = [\<lparr>arg = ''item_id'', annotation = Some (Name ''int'')\<rparr>,
              \<lparr>arg = ''q'', annotation = None\<rparr>],
      decorator_list =
        [Call (Attribute (Name ''router'') ''get'') [Constant (CStr ''/x/{id}'')] []],
      returns = None,
      docstring = None\<rparr>"

section \<open>Trees without route decorators\<close>

text \<open>
  The decorators the extractor recognises as routes are the calls whose callee is an
  attribute access. \<open>no_route\<close> holds for a tree when no function definition in it
  has such a decorator.
\<close>

fun is_route_decorator :: "expr \<Rightarrow> bool" where
  "is_route_decorator (Call (Attribute obj attr) as kws) = True"
| "is_route_decorator d = False"

fun no_route :: "node \<Rightarrow> bool" where
  "no_route (FunctionDef f b) =
     ((\<forall>d \<in> set (decorator_list f). \<not> is_route_decorator d) \<and> (\<forall>n \<in> set b. no_route n))"
| "no_route (ClassDef c b) = (\<forall>n \<in> set b. no_route n)"
| "no_route (OtherNode b) = (\<forall>n \<in> set b. no_route n)"

text \<open>
  A module without routes, and a parser that reads its text and rejects every other:
  \<^verbatim>\<open>
  class Helpers:
      @requires_auth()
      def helper(self, x): ...
  \<close>
\<close>

definition helper_module :: node where
  "helper_module =
     OtherNode [ClassDef ''Helpers''
       [FunctionDef
          \<lparr>name = ''helper'',
           args = [\<lparr>arg = ''self'', annotation = None\<rparr>, \<lparr>arg = ''x'', annotation = None\<rparr>],
           decorator_list = [Call (Name ''requires_auth'') [] []],
           returns = None,
           docstring = None\<rparr> [OtherNode []]]]"

definition helper_parse :: "string \<Rightarrow> error + node" where
  "helper_parse code = (if code = ''helpers'' then Inr helper_module else Inl SyntaxError)"

section \<open>The path a route decorator leaves\<close>

text \<open>
  The string literals among the positional arguments of a call, the values of its
  keywords named \<^verbatim>\<open>path\<close>, and the path these leave when the path was \<open>p\<close> before:
  the value of the last such keyword if there is one, else the last string literal if
  there is one, else \<open>p\<close>.
\<close>

fun string_literals :: "expr list \<Rightarrow> string list" where
  "string_literals [] = []"
| "string_literals (Constant (CStr s) # as) = s # string_literals as"
| "string_literals (a # as) = string_literals as"

definition path_keywords :: "(string option \<times> expr) list \<Rightarrow> expr list" where
  "path_keywords kws = map snd (filter (\<lambda>kw. fst kw = Some ''path'') kws)"

definition decorator_path :: "const \<Rightarrow> expr list \<Rightarrow> (string option \<times> expr) list \<Rightarrow> const" where
  "decorator_path p as kws =
     (case rev (path_keywords kws) of
        Constant c # vs \<Rightarrow> c
      | _ \<Rightarrow> (case rev (string_literals as) of [] \<Rightarrow> p | s # ss \<Rightarrow> CStr s))"

text \<open>
  Handlers with two routes, with two string arguments, with a path keyword after a
  string argument, and with a path keyword whose value is a name:
  \<^verbatim>\<open>
  @router.get("/a")                @router.get("/a", "/b")
  @router.post()                   def two_strings(): ...
  def two_routes(): ...
  @router.get("/a", path="/b")     @router.get("/x", path=PREFIX)
  def string_and_keyword(): ...    def keyword_is_name(): ...
  \<close>
\<close>

definition handler :: "string \<Rightarrow> expr list \<Rightarrow> funcdef" where
  "handler n ds = \<lparr>name = n, args = [], decorator_list = ds, returns = None, docstring = None\<rparr>"

definition two_routes :: funcdef where
  "two_routes = handler ''two_routes''
     [Call (Attribute (Name ''router'') ''get'') [Constant (CStr ''/a'')] [],
      Call (Attribute (Name ''router'') ''post'') [] []]"

definition two_strings :: funcdef where
  "two_strings = handler ''two_strings''
     [Call (Attribute (Name ''router'') ''get'') [Constant (CStr ''/a''), Constant (CStr ''/b'')] []]"

definition string_and_keyword :: funcdef where
  "string_and_keyword = handler ''string_and_keyword''
     [Call (Attribute (Name ''router'') ''get'') [Constant (CStr ''/a'')]
        [(Some ''path'', Constant (CStr ''/b''))]]"


definition route_record :: "string \<Rightarrow> string \<Rightarrow> endpoint" where
  "route_record p m =
     \<lparr>path = CStr p, http_method = m, description = EmptyStr, parameters = [], response = None,
      auth_required = False\<rparr>"

text \<open>
  A route decorator whose call has a keyword named \<^verbatim>\<open>path\<close> with a value that is not
  a constant node.
\<close>

fun is_constant :: "expr \<Rightarrow> bool" where
  "is_constant (Constant c) = True"
| "is_constant e = False"

fun has_bad_path_keyword :: "expr \<Rightarrow> bool" where
  "has_bad_path_keyword (Call (Attribute obj attr) as kws) =
     (\<exists>v \<in> set (path_keywords kws). \<not> is_constant v)"
| "has_bad_path_keyword d = False"


section \<open>Positional sections of a docstring\<close>

text \<open>
  The statement of the section rule, to compare \<^verbatim>\<open>_parse_docstring\<close> with. A line is a
  header when, trimmed and lower-cased, it starts with one of the three keywords.
  \<open>sections_of c ls\<close> gives, for each line of \<open>ls\<close>, the section in force when the
  line is met: that of the last header before it, and \<open>c\<close> when there is none.
  \<open>section_lines c sec ls\<close> are the trimmed, non-empty, non-header lines met while
  \<open>sec\<close> is in force.
\<close>

definition header_of :: "string \<Rightarrow> doc_section option" where
  "header_of raw =
     (if startswith (lower (strip raw)) ''parameters:'' then Some SParameters
      else if startswith (lower (strip raw)) ''returns:'' then Some SReturns
      else if startswith (lower (strip raw)) ''raises:'' then Some SRaises
      else None)"

fun sections_of :: "doc_section \<Rightarrow> string list \<Rightarrow> doc_section list" where
  "sections_of c [] = []"
| "sections_of c (l # ls) =
     c # sections_of (case header_of l of None \<Rightarrow> c | Some h \<Rightarrow> h) ls"

definition section_lines :: "doc_section \<Rightarrow> doc_section \<Rightarrow> string list \<Rightarrow> string list" where
  "section_lines c sec ls =
     map (\<lambda>cl. strip (snd cl))
       (filter (\<lambda>cl. fst cl = sec \<and> header_of (snd cl) = None \<and> strip (snd cl) \<noteq> [])
          (zip (sections_of c ls) ls))"

text \<open>The entry a line of the parameters section adds to the mapping, if it has the shape
  \<^verbatim>\<open>name: text\<close>.\<close>

definition add_parameter :: "string \<Rightarrow> (string \<times> string) list \<Rightarrow> (string \<times> string) list" where
  "add_parameter line d = (case param_match line of None \<Rightarrow> d | Some (k, v) \<Rightarrow> dict_set d k v)"

text \<open>The section in force after the lines \<open>ls\<close>, read from their end.\<close>

fun last_header :: "doc_section \<Rightarrow> string list \<Rightarrow> doc_section" where
  "last_header c [] = c"
| "last_header c (l # ls) = last_header (case header_of l of None \<Rightarrow> c | Some h \<Rightarrow> h) ls"

text \<open>
  Docstrings: a line without the shape \<^verbatim>\<open>name: text\<close> under the parameters header
  and an empty line under the raises header; and the example of the specification.
\<close>

definition doc_plain_parameter :: string where
  "doc_plain_parameter = ''Parameters:'' @ nl @ ''the item to read''"

definition doc_blank_raises :: string where
  "doc_blank_raises = ''Raises:'' @ nl @ nl @ ''ValueError''"

definition doc_example :: string where
  "doc_example = ''Does X.'' @ nl @ ''Parameters:'' @ nl @ ''foo: the foo value'' @ nl
                 @ ''Returns:'' @ nl @ ''The result.'' @ nl"

section \<open>Last record of a path and method\<close>

text \<open>
  The last record of a Catalog with the path \<open>p\<close> (as a dictionary key) and the method
  \<open>m\<close>.
\<close>

definition same_route :: "const \<Rightarrow> string \<Rightarrow> endpoint \<Rightarrow> bool" where
  "same_route p m e = (py_eq (path e) p \<and> http_method e = m)"

definition last_record :: "const \<Rightarrow> string \<Rightarrow> endpoint list \<Rightarrow> endpoint option" where
  "last_record p m es = find (same_route p m) (rev es)"

section \<open>Example catalogs\<close>

text \<open>
  Two documented handlers of \<^verbatim>\<open>get /dup\<close>, parsed in this order, and a documented
  handler with a parameter \<^verbatim>\<open>q\<close> that has no annotation.
\<close>

definition documented :: "string \<Rightarrow> parsed_doc" where
  "documented t = empty_sections\<lparr>doc_description := t\<rparr>"

definition dup_first :: endpoint where
  "dup_first =
     \<lparr>path = CStr ''/dup'', http_method = ''get'', description = Sections (documented ''First. ''),
      parameters = [], response = None, auth_required = False\<rparr>"

definition dup_second :: endpoint where
  "dup_second =
     \<lparr>path = CStr ''/dup'', http_method = ''get'', description = Sections (documented ''Second. ''),
      parameters = [], response = None, auth_required = False\<rparr>"

definition dup_catalog :: generator where
  "dup_catalog = \<lparr>endpoints = [dup_first, dup_second], log = []\<rparr>"






section \<open>Frames, large integers and further examples\<close>

text \<open>
  The number of frames in the examples, and an integer of 4301 digits, which a
  source text can hold as a hexadecimal literal:
  \<^verbatim>\<open>
  @router.get("/big")
  def big(self, n: Literal[0x...]): ...
  \<close>
\<close>

definition example_frames :: nat where
  "example_frames = 100"

definition big_int :: int where
  "big_int = 10 ^ max_str_digits"


text \<open>Whether every annotation the extractor renders has a rendering.\<close>

definition renders :: "nat \<Rightarrow> expr option \<Rightarrow> bool" where
  "renders lim r =
     (case r of None \<Rightarrow> True
      | Some t \<Rightarrow> (case get_type_hint lim t of Inl err \<Rightarrow> False | Inr s \<Rightarrow> True))"

definition annotations_render :: "nat \<Rightarrow> funcdef \<Rightarrow> bool" where
  "annotations_render lim f =
     (list_all (\<lambda>a. renders lim (annotation a)) (drop 1 (args f)) \<and> renders lim (returns f))"

text \<open>The record \<^verbatim>\<open>get /x/{id}\<close> of the handler \<open>handler_get_x\<close>.\<close>

definition record_get_x :: endpoint where
  "record_get_x =
     \<lparr>path = CStr ''/x/{id}'', http_method = ''get'', description = EmptyStr,
      parameters = [\<lparr>param_name = ''q'', param_type = None, param_required = True\<rparr>],
      response = None, auth_required = False\<rparr>"


text \<open>
  A module with two handlers of \<^verbatim>\<open>get /dup\<close> that have no docstring, and a parser that
  reads its text and rejects every other:
  \<^verbatim>\<open>
  @router.get("/dup")
  def first(): ...
  @router.get("/dup")
  def second(): ...
  \<close>
\<close>

definition undocumented_duplicates :: node where
  "undocumented_duplicates =
     OtherNode
       [FunctionDef
          (handler ''first'' [Call (Attribute (Name ''router'') ''get'') [Constant (CStr ''/dup'')] []])
          [OtherNode []],
        FunctionDef
          (handler ''second'' [Call (Attribute (Name ''router'') ''get'') [Constant (CStr ''/dup'')] []])
          [OtherNode []]]"

definition duplicates_parse :: "string \<Rightarrow> error + node" where
  "duplicates_parse code =
     (if code = ''duplicates'' then Inr undocumented_duplicates else Inl SyntaxError)"

section \<open>Reading an annotation back\<close>

text \<open>
  The round trip of a rendered annotation goes through the parser of the language
  (\<^verbatim>\<open>ast.parse\<close> on an expression), which is not part of the program. Its behaviour
  is written out here for the texts made of names, decimal integers, brackets and
  blanks: a name, \<^verbatim>\<open>None\<close>, \<^verbatim>\<open>True\<close>, \<^verbatim>\<open>False\<close> or an integer, followed by any number
  of subscripts with one argument of the same form. \<open>parse_annotation\<close> is \<open>None\<close> for
  every other text, whether the parser refuses it or reads a tree of another kind.

  The characters of a name are the letters, the underscore, and after the first
  character the digits and the middle dot 183; the signs 170, 181 and 186, which the
  parser replaces by other letters, are left out.
\<close>

datatype token = TName string | TInt nat | TLBracket | TRBracket

definition is_digit :: "char \<Rightarrow> bool" where
  "is_digit c = (48 \<le> (of_char c :: nat) \<and> (of_char c :: nat) \<le> 57)"

definition is_ident_start :: "char \<Rightarrow> bool" where
  "is_ident_start c =
     (let n = (of_char c :: nat)
      in (65 \<le> n \<and> n \<le> 90) \<or> n = 95 \<or> (97 \<le> n \<and> n \<le> 122)
         \<or> (192 \<le> n \<and> n \<le> 214) \<or> (216 \<le> n \<and> n \<le> 246) \<or> (248 \<le> n \<and> n \<le> 255))"

definition is_ident_char :: "char \<Rightarrow> bool" where
  "is_ident_char c = (is_ident_start c \<or> is_digit c \<or> (of_char c :: nat) = 183)"

text \<open>The value of a decimal numeral.\<close>

definition read_nat :: "string \<Rightarrow> nat" where
  "read_nat ds = foldl (\<lambda>a c. 10 * a + ((of_char c :: nat) - 48)) 0 ds"

text \<open>
  The token of a maximal run of name characters: a name, or a decimal integer, which
  has no leading zero and no more digits than the limit of the conversion.
\<close>

definition word_token :: "string \<Rightarrow> token option" where
  "word_token w =
     (if list_all is_digit w
      then (if (w = ''0'' \<or> hd w \<noteq> CHR ''0'') \<and> length w \<le> max_str_digits
            then Some (TInt (read_nat w)) else None)
      else if is_ident_start (hd w) then Some (TName w) else None)"

definition flush :: "string \<Rightarrow> token list \<Rightarrow> token list option" where
  "flush cur ts =
     (if cur = [] then Some ts
      else (case word_token cur of None \<Rightarrow> None | Some t \<Rightarrow> Some (t # ts)))"

definition punctuation :: "char \<Rightarrow> token list option" where
  "punctuation c =
     (if c = CHR ''['' then Some [TLBracket]
      else if c = CHR '']'' then Some [TRBracket]
      else if c = CHR '' '' then Some []
      else None)"

text \<open>The tokens of a text; \<open>cur\<close> holds the characters of the word being read.\<close>

fun tokenize :: "string \<Rightarrow> string \<Rightarrow> token list option" where
  "tokenize cur [] = flush cur []"
| "tokenize cur (c # cs) =
     (if is_ident_char c then tokenize (cur @ [c]) cs
      else (case punctuation c of
              None \<Rightarrow> None
            | Some p \<Rightarrow>
                (case tokenize [] cs of
                   None \<Rightarrow> None
                 | Some ts \<Rightarrow> flush cur (p @ ts))))"

definition python_keywords :: "string list" where
  "python_keywords =
     [''and'', ''as'', ''assert'', ''async'', ''await'', ''break'', ''class'', ''continue'',
      ''def'', ''del'', ''elif'', ''else'', ''except'', ''finally'', ''for'', ''from'', ''global'',
      ''if'', ''import'', ''in'', ''is'', ''lambda'', ''nonlocal'', ''not'', ''or'', ''pass'',
      ''raise'', ''return'', ''try'', ''while'', ''with'', ''yield'']"

text \<open>The node of a name token.\<close>

definition atom :: "string \<Rightarrow> expr option" where
  "atom n =
     (if n = ''None'' then Some (Constant CNone)
      else if n = ''True'' then Some (Constant (CBool True))
      else if n = ''False'' then Some (Constant (CBool False))
      else if n \<in> set python_keywords then None
      else Some (Name n))"

text \<open>The number of brackets that may be open at once.\<close>

definition max_nesting :: nat where
  "max_nesting = 200"

text \<open>
  The tokens are read from left to right. \<open>cur\<close> is the expression just completed, if
  any; the stack holds, for every bracket that is open, the expression before it.
\<close>

fun parse_tokens :: "expr option \<Rightarrow> expr list \<Rightarrow> token list \<Rightarrow> expr option" where
  "parse_tokens cur stack [] = (if stack = [] then cur else None)"
| "parse_tokens cur stack (TName n # ts) =
     (case cur of
        None \<Rightarrow> (case atom n of None \<Rightarrow> None | Some a \<Rightarrow> parse_tokens (Some a) stack ts)
      | Some e \<Rightarrow> None)"
| "parse_tokens cur stack (TInt i # ts) =
     (case cur of
        None \<Rightarrow> parse_tokens (Some (Constant (CInt (int i)))) stack ts
      | Some e \<Rightarrow> None)"
| "parse_tokens cur stack (TLBracket # ts) =
     (case cur of
        None \<Rightarrow> None
      | Some e \<Rightarrow> if max_nesting \<le> length stack then None else parse_tokens None (e # stack) ts)"
| "parse_tokens cur stack (TRBracket # ts) =
     (case cur of
        None \<Rightarrow> None
      | Some s \<Rightarrow>
          (case stack of
             [] \<Rightarrow> None
           | e # rest \<Rightarrow> parse_tokens (Some (Subscript e s)) rest ts))"

text \<open>The depth of the subscripts of a tree, every other node counting as one.\<close>

fun subscript_depth :: "expr \<Rightarrow> nat" where
  "subscript_depth (Subscript v s) = Suc (max (subscript_depth v) (subscript_depth s))"
| "subscript_depth e = 1"

text \<open>
  The parser builds a tree of a depth up to \<open>tree_limit\<close>, which depends on the stack
  that is left, and raises \<^verbatim>\<open>RecursionError\<close> for a deeper one. It refuses a text
  that starts with a blank.
\<close>

definition parse_annotation :: "nat \<Rightarrow> string \<Rightarrow> expr option" where
  "parse_annotation tree_limit s =
     (if s = [] \<or> hd s = CHR '' '' then None
      else (case tokenize [] s of
              None \<Rightarrow> None
            | Some ts \<Rightarrow>
                (case parse_tokens None [] ts of
                   None \<Rightarrow> None
                 | Some t \<Rightarrow> if subscript_depth t \<le> tree_limit then Some t else None)))"

text \<open>
  The trees of the round trip, as the parser gives them for an annotation: names that
  are identifiers and no keywords, integers that are not negative, the other constants
  that are no strings, subscripts, and every node of a kind the renderer has no branch
  for. \<open>reparsed e\<close> is the tree read back from the rendering of \<open>e\<close>, \<open>tokens_of e\<close>
  its tokens, and \<open>bracket_depth e\<close> the number of brackets open at once in it.
\<close>

definition is_identifier :: "string \<Rightarrow> bool" where
  "is_identifier i =
     (i \<noteq> [] \<and> is_ident_start (hd i) \<and> list_all is_ident_char i \<and> atom i = Some (Name i))"

fun reparsable :: "expr \<Rightarrow> bool" where
  "reparsable (Name i) = is_identifier i"
| "reparsable (Subscript v s) = (reparsable v \<and> reparsable s)"
| "reparsable (Constant (CInt i)) = (0 \<le> i)"
| "reparsable (Constant (CStr s)) = False"
| "reparsable e = True"

fun reparsed :: "expr \<Rightarrow> expr" where
  "reparsed (Name i) = Name i"
| "reparsed (Subscript v s) = Subscript (reparsed v) (reparsed s)"
| "reparsed (Constant CNone) = Constant CNone"
| "reparsed (Constant (CBool b)) = Constant (CBool b)"
| "reparsed (Constant (CInt i)) = Constant (CInt i)"
| "reparsed (Constant CEllipsis) = Name ''Ellipsis''"
| "reparsed e = Name ''Any''"

fun tokens_of :: "expr \<Rightarrow> token list" where
  "tokens_of (Subscript v s) = tokens_of v @ [TLBracket] @ tokens_of s @ [TRBracket]"
| "tokens_of (Name i) = [TName i]"
| "tokens_of (Constant CNone) = [TName ''None'']"
| "tokens_of (Constant (CBool b)) = [TName (if b then ''True'' else ''False'')]"
| "tokens_of (Constant (CInt i)) = [TInt (nat i)]"
| "tokens_of (Constant CEllipsis) = [TName ''Ellipsis'']"
| "tokens_of e = [TName ''Any'']"

text \<open>Whether \<^verbatim>\<open>str\<close> converts every integer of a tree.\<close>

fun int_digits_ok :: "expr \<Rightarrow> bool" where
  "int_digits_ok (Subscript v s) = (int_digits_ok v \<and> int_digits_ok s)"
| "int_digits_ok (Constant (CInt i)) = (length (str_nat (nat \<bar>i\<bar>)) \<le> max_str_digits)"
| "int_digits_ok e = True"

fun bracket_depth :: "expr \<Rightarrow> nat" where
  "bracket_depth (Subscript v s) = max (bracket_depth v) (Suc (bracket_depth s))"
| "bracket_depth e = 0"

text \<open>
  An annotation written as a string, \<^verbatim>\<open>"List[ int ]"\<close>; generics with an integer and
  with two arguments, \<^verbatim>\<open>Literal[16]\<close> and \<^verbatim>\<open>List[Dict[str, int]]\<close>; and the
  annotation \<^verbatim>\<open>a[b]...[b]\<close> with \<open>n\<close> subscripts in a row.
\<close>

definition string_annotation :: expr where
  "string_annotation = Constant (CStr ''List[ int ]'')"

definition literal_generic :: expr where
  "literal_generic = Subscript (Name ''Literal'') (Constant (CInt 16))"

definition nested_generic :: expr where
  "nested_generic =
     Subscript (Name ''List'') (Subscript (Name ''Dict'') (Tuple [Name ''str'', Name ''int'']))"

fun subscript_chain :: "nat \<Rightarrow> expr" where
  "subscript_chain 0 = Name ''a''"
| "subscript_chain (Suc n) = Subscript (subscript_chain n) (Name ''b'')"

section \<open>Properties of the type-annotation renderer\<close>

text \<open>
  The equations of the renderer when a frame is left, and the conversion of an
  integer with more digits than the limit.
\<close>

lemma get_type_hint_frames:
  "0 < lim \<Longrightarrow> get_type_hint lim (Name i) = Inr i"
  "0 < lim \<Longrightarrow> get_type_hint lim (Subscript v s) =
     (case get_type_hint (lim - 1) v of
        Inl err \<Rightarrow> Inl err
      | Inr value \<Rightarrow>
          (case get_type_hint (lim - 1) s of
             Inl err \<Rightarrow> Inl err
           | Inr slice_value \<Rightarrow> Inr (value @ ''['' @ slice_value @ '']'')))"
  "0 < lim \<Longrightarrow> get_type_hint lim (Constant c) = str_const c"
  "0 < lim \<Longrightarrow> get_type_hint lim (Attribute x n) = Inr ''Any''"
  "0 < lim \<Longrightarrow> get_type_hint lim (Call x as kws) = Inr ''Any''"
  "0 < lim \<Longrightarrow> get_type_hint lim (Tuple xs) = Inr ''Any''"
  "0 < lim \<Longrightarrow> get_type_hint lim OtherExpr = Inr ''Any''"
  by (auto simp: gr0_conv_Suc cong: sum.case_cong)

lemma str_nat_step: "\<not> n < 10 \<Longrightarrow> str_nat n = str_nat (n div 10) @ [digit_char (n mod 10)]"
  by (subst str_nat.simps) (simp only: if_False)

lemma str_nat_digit: "n < 10 \<Longrightarrow> str_nat n = [digit_char n]"
  by (subst str_nat.simps) (simp only: if_True)

lemma str_nat_not_Nil: "str_nat n \<noteq> []"
  by (cases "n < 10") (simp_all add: str_nat_step str_nat_digit)

lemma length_str_nat: "10 ^ k \<le> n \<Longrightarrow> k < length (str_nat n)"
proof (induction k arbitrary: n)
  case 0
  show ?case
    by (simp add: str_nat_not_Nil)
next
  case (Suc k)
  then have c: "10 * 10 ^ k \<le> n" by simp
  have "(1::nat) \<le> 10 ^ k" by simp
  with c have b: "\<not> n < 10" by arith
  have "(10::nat) ^ k = (10 * 10 ^ k) div 10" by simp
  also have "\<dots> \<le> n div 10" using c by (rule div_le_mono)
  finally have a: "10 ^ k \<le> n div 10" .
  have "length (str_nat n) = Suc (length (str_nat (n div 10)))"
    by (simp only: str_nat_step [OF b] length_append list.size)
  with Suc.IH [OF a] show ?case
    by (simp only: Suc_less_eq)
qed

lemma str_int_big: "str_int big_int = Inl ValueError"
proof -
  have "(0::int) \<le> 10 ^ max_str_digits"
    by (rule zero_le_power) simp
  then have "nat \<bar>big_int\<bar> = nat ((10::int) ^ max_str_digits)"
    by (simp only: big_int_def abs_of_nonneg)
  also have "\<dots> = 10 ^ max_str_digits"
    by (simp only: nat_power_eq zero_le_numeral nat_numeral)
  finally have "max_str_digits < length (str_nat (nat \<bar>big_int\<bar>))"
    using length_str_nat [of max_str_digits "10 ^ max_str_digits"] by (simp only: order_refl)
  then show ?thesis
    by (simp only: str_int_def if_True)
qed

lemma get_type_hint_single_argument:
  "get_type_hint (Suc (Suc (Suc lim)))
     (Subscript (Name ''List'') (Subscript (Name ''List'') (Name ''int'')))
     = Inr ''List[List[int]]''"
  by simp

text \<open>
  C4. The claim says that rendering the annotation \<^verbatim>\<open>Dict[str, List[int]]\<close> gives the
  string \<^verbatim>\<open>Dict[str, List[int]]\<close>. The parser reads the two subscript arguments as one
  tuple node (slice of the subscript), the renderer has no branch for a tuple, and the
  fallback branch renders the whole argument list as \<^verbatim>\<open>Any\<close>: whenever two nested
  calls fit, the result is \<^verbatim>\<open>Dict[Any]\<close>, not the claimed text.
\<close>

theorem get_type_hint_dict_renders_any:
  "get_type_hint (Suc (Suc lim))
     (Subscript (Name ''Dict'')
        (Tuple [Name ''str'', Subscript (Name ''List'') (Name ''int'')]))
     = Inr ''Dict[Any]''
   \<and> get_type_hint (Suc (Suc lim))
     (Subscript (Name ''Dict'')
        (Tuple [Name ''str'', Subscript (Name ''List'') (Name ''int'')]))
     \<noteq> Inr ''Dict[str, List[int]]''"
  by simp

section \<open>Properties of the single-endpoint extractor\<close>

lemma endpoints_parse_endpoint:
  "endpoints (parse_endpoint lim f g) =
     (case extract_endpoint lim f of Inr (Some ep) \<Rightarrow> endpoints g @ [ep] | _ \<Rightarrow> endpoints g)"
  by (simp add: parse_endpoint_def split: sum.splits option.splits)

lemma make_parameter_returns:
  "(\<exists>q. make_parameter lim a = Inr q) = renders lim (annotation a)"
  by (auto simp: make_parameter_def renders_def split: option.splits sum.splits)

lemma make_parameters_returns:
  "(\<exists>qs. make_parameters lim as = Inr qs) = list_all (\<lambda>a. renders lim (annotation a)) as"
proof (induction as)
  case Nil
  show ?case by simp
next
  case (Cons a as)
  with make_parameter_returns [of lim a] show ?case
    by (auto split: sum.splits)
qed

lemma make_parameters_fields:
  "make_parameters lim as = Inr qs \<Longrightarrow>
     map param_name qs = map arg as \<and> length qs = length as
     \<and> map (\<lambda>q. map_option Inr (param_type q)) qs
         = map (\<lambda>a. map_option (get_type_hint lim) (annotation a)) as"
proof (induction as arbitrary: qs)
  case Nil
  then show ?case by simp
next
  case (Cons a as)
  then obtain q qs' where q: "make_parameter lim a = Inr q"
    and r: "make_parameters lim as = Inr qs'" and e: "qs = q # qs'"
    by (auto split: sum.splits)
  from q have "param_name q = arg a"
    "map_option Inr (param_type q) = map_option (get_type_hint lim) (annotation a)"
    by (auto simp: make_parameter_def split: option.splits sum.splits)
  with Cons.IH [OF r] e show ?case by simp
qed

lemma make_response_returns:
  "(\<exists>r. make_response lim t = Inr r) = renders lim t"
  by (auto simp: make_response_def renders_def split: option.splits sum.splits)

lemma build_endpoint_returns:
  "(\<exists>ep. build_endpoint lim f p m a = Inr ep) = annotations_render lim f"
  using make_parameters_returns [of lim "drop 1 (args f)"] make_response_returns [of lim "returns f"]
  by (auto simp: build_endpoint_def annotations_render_def split: sum.splits)

lemma build_endpoint_fields:
  "build_endpoint lim f p m a = Inr ep \<Longrightarrow>
     path ep = p \<and> http_method ep = m \<and> auth_required ep = a
     \<and> description ep = make_description (docstring f)
     \<and> make_parameters lim (drop 1 (args f)) = Inr (parameters ep)
     \<and> make_response lim (returns f) = Inr (response ep)"
  by (auto simp: build_endpoint_def split: sum.splits)

lemma extract_endpoint_Some:
  "(extract_endpoint lim f = Inr (Some ep)) =
     (\<exists>p m a. inspect_decorators (CNone, None, False) (decorator_list f) = Inr (p, Some m, a)
        \<and> truthy p \<and> m \<noteq> [] \<and> build_endpoint lim f p m a = Inr ep)"
  by (auto simp: extract_endpoint_def path_and_method_def split: sum.splits option.splits prod.splits)

text \<open>A rendering that fits in \<open>n\<close> frames is the same when one frame more is left.\<close>

lemma get_type_hint_more: "get_type_hint n e = Inr s \<Longrightarrow> get_type_hint (Suc n) e = Inr s"
proof (induction n arbitrary: e s)
  case 0
  then show ?case by simp
next
  case (Suc n)
  show ?case
  proof (cases e)
    case (Subscript v t)
    with Suc.prems obtain a b where a: "get_type_hint n v = Inr a" and b: "get_type_hint n t = Inr b"
      and s: "s = a @ ''['' @ b @ '']''"
      by (auto split: sum.splits)
    from Suc.IH [OF a] Suc.IH [OF b] s Subscript show ?thesis
      by simp
  qed (use Suc.prems in simp_all)
qed

lemma make_parameters_more:
  "make_parameters n as = Inr qs \<Longrightarrow> make_parameters (Suc n) as = Inr qs"
proof (induction as arbitrary: qs)
  case Nil
  then show ?case by simp
next
  case (Cons a as)
  then obtain q qs' where q: "make_parameter n a = Inr q"
    and r: "make_parameters n as = Inr qs'" and e: "qs = q # qs'"
    by (auto split: sum.splits)
  from q have "make_parameter (Suc n) a = Inr q"
    by (auto simp: make_parameter_def split: option.splits sum.splits dest: get_type_hint_more)
  with Cons.IH [OF r] e show ?case by simp
qed

lemma build_endpoint_more:
  "build_endpoint n f p m a = Inr ep \<Longrightarrow> build_endpoint (Suc n) f p m a = Inr ep"
proof -
  assume b: "build_endpoint n f p m a = Inr ep"
  then obtain qs r where q: "make_parameters n (drop 1 (args f)) = Inr qs"
    and r: "make_response n (returns f) = Inr r"
    by (auto simp: build_endpoint_def split: sum.splits)
  from r have "make_response (Suc n) (returns f) = Inr r"
    by (auto simp: make_response_def split: option.splits sum.splits dest: get_type_hint_more)
  with make_parameters_more [OF q] b q r show ?thesis
    by (simp add: build_endpoint_def del: One_nat_def)
qed

lemma extract_endpoint_more:
  "extract_endpoint n f = Inr (Some ep) \<Longrightarrow> extract_endpoint (Suc n) f = Inr (Some ep)"
  by (auto simp: extract_endpoint_Some dest: build_endpoint_more)



lemmas eval_extract = endpoints_parse_endpoint extract_endpoint_def build_endpoint_def handler_def
  lower_def lower_char_def Let_def path_and_method_def make_description_def make_parameter_def
  make_response_def init_def route_record_def example_frames_def get_type_hint_frames



text \<open>
  C10. The parameters of a record are those of \<^verbatim>\<open>node.args.args[1:]\<close>: the first
  declared parameter is left out whatever the function is. A function met at the top
  level is handed to the same extractor as a member of a class, so the first real
  parameter of a top-level handler is not in its record.
\<close>

theorem parameters_skip_first:
  "endpoints (parse_endpoint lim f g) = endpoints g @ [ep] \<Longrightarrow>
     make_parameters lim (drop 1 (args f)) = Inr (parameters ep)
     \<and> map param_name (parameters ep) = map arg (tl (args f))
     \<and> length (parameters ep) = length (args f) - 1
     \<and> endpoints (visit lim (FunctionDef f b) g) = endpoints g @ [ep]"
proof -
  assume "endpoints (parse_endpoint lim f g) = endpoints g @ [ep]"
  then have x: "extract_endpoint lim f = Inr (Some ep)"
    by (auto simp: endpoints_parse_endpoint split: sum.splits option.splits)
  then obtain p m a where "build_endpoint lim f p m a = Inr ep"
    by (auto simp: extract_endpoint_Some)
  then have q: "make_parameters lim (drop 1 (args f)) = Inr (parameters ep)"
    by (blast dest: build_endpoint_fields)
  have "drop 1 (args f) = tl (args f)"
    by (simp add: drop_Suc)
  moreover from extract_endpoint_more [OF x]
  have "endpoints (visit lim (FunctionDef f b) g) = endpoints g @ [ep]"
    by (simp add: endpoints_parse_endpoint)
  ultimately show ?thesis
    using make_parameters_fields [OF q] q by (simp del: One_nat_def)
qed

theorem parameters_skip_first_witness:
  "endpoints (parse_endpoint (Suc example_frames) handler_get_x init) = endpoints init @ [record_get_x]
   \<and> map param_name (parameters record_get_x) = [''q'']
   \<and> map arg (args handler_get_x) = [''item_id'', ''q'']
   \<and> endpoints (visit (Suc example_frames) (FunctionDef handler_get_x []) init) = [record_get_x]"
proof -
  have e: "endpoints (parse_endpoint (Suc example_frames) handler_get_x init)
             = endpoints init @ [record_get_x]"
    by (simp add: handler_get_x_def record_get_x_def eval_extract)
  from parameters_skip_first [OF e, of "[]"] e show ?thesis
    by (simp add: handler_get_x_def init_def)
qed

section \<open>Properties of the structural parser\<close>

lemma decorator_step_no_route:
  "\<not> is_route_decorator d \<Longrightarrow> \<exists>a'. decorator_step (p, m, a) d = Inr (p, m, a')"
  by (induction "(p, m, a)" d rule: decorator_step.induct) simp_all

lemma inspect_decorators_no_route:
  "\<forall>d \<in> set ds. \<not> is_route_decorator d \<Longrightarrow> \<exists>a'. inspect_decorators (p, m, a) ds = Inr (p, m, a')"
proof (induction ds arbitrary: a)
  case Nil
  then show ?case by simp
next
  case (Cons d ds)
  then obtain a1 where "decorator_step (p, m, a) d = Inr (p, m, a1)"
    using decorator_step_no_route [of d p m a] by auto
  with Cons show ?case by simp
qed

lemma parse_endpoint_no_route:
  assumes "\<forall>d \<in> set (decorator_list f). \<not> is_route_decorator d"
  shows "parse_endpoint lim f g = g"
proof -
  obtain a' where "inspect_decorators (CNone, None, False) (decorator_list f) = Inr (CNone, None, a')"
    using inspect_decorators_no_route [OF assms] by blast
  then show ?thesis
    by (simp add: parse_endpoint_def extract_endpoint_def path_and_method_def)
qed

lemma parse_router_class_no_route:
  "\<forall>n \<in> set b. no_route n \<Longrightarrow> parse_router_class lim b g = g"
  by (induction lim b g rule: parse_router_class.induct) (simp_all add: parse_endpoint_no_route)

lemma visit_no_route: "no_route n \<Longrightarrow> visit lim n g = g"
  by (cases n) (simp_all add: parse_endpoint_no_route parse_router_class_no_route)

lemma no_route_children: "no_route n \<Longrightarrow> \<forall>c \<in> set (children n). no_route c"
  by (cases n) simp_all

lemma walk_no_route: "\<forall>n \<in> set q. no_route n \<Longrightarrow> \<forall>n \<in> set (walk q). no_route n"
  by (induction q rule: walk.induct) (auto dest: no_route_children)

lemma fold_visit_no_route: "\<forall>n \<in> set ns. no_route n \<Longrightarrow> fold (visit lim) ns g = g"
  by (induction ns arbitrary: g) (simp_all add: visit_no_route)

lemma parse_endpoint_grows:
  "prefix (endpoints g) (endpoints (parse_endpoint lim f g)) \<and> prefix (log g) (log (parse_endpoint lim f g))"
  by (simp add: parse_endpoint_def split: sum.splits option.splits)

lemma parse_router_class_grows:
  "prefix (endpoints g) (endpoints (parse_router_class lim b g))
   \<and> prefix (log g) (log (parse_router_class lim b g))"
proof (induction lim b g rule: parse_router_class.induct)
  case (2 lim f b items g)
  with parse_endpoint_grows [of g lim f] show ?case
    by (auto intro: prefix_order.trans)
qed simp_all

lemma visit_grows:
  "prefix (endpoints g) (endpoints (visit lim n g)) \<and> prefix (log g) (log (visit lim n g))"
  by (cases n) (simp_all add: parse_endpoint_grows parse_router_class_grows)

lemma fold_visit_grows:
  "prefix (endpoints g) (endpoints (fold (visit lim) ns g)) \<and> prefix (log g) (log (fold (visit lim) ns g))"
proof (induction ns arbitrary: g)
  case (Cons n ns)
  with visit_grows [of g lim n] show ?case
    by (auto intro: prefix_order.trans)
qed simp

text \<open>
  C2. The entry point always returns: its result is the state it was given, with
  records and log entries added at the end, if any. When the parser of the library
  raises, the Catalog is as it was and the error is logged. When the text parses
  and no function definition of the tree has a route decorator, the state is as it
  was, so a Catalog that was empty is empty.
\<close>

theorem parse_fastapi_app_no_exception:
  "(ast_parse code = Inl e \<longrightarrow>
      endpoints (parse_fastapi_app lim ast_parse code g) = endpoints g
      \<and> log (parse_fastapi_app lim ast_parse code g) = log g @ [ErrorParsingApp e])
   \<and> (ast_parse code = Inr tree \<and> no_route tree \<longrightarrow>
        parse_fastapi_app lim ast_parse code g = g)
   \<and> (ast_parse code = Inr tree \<and> no_route tree \<and> endpoints g = [] \<longrightarrow>
        endpoints (parse_fastapi_app lim ast_parse code g) = [])
   \<and> prefix (endpoints g) (endpoints (parse_fastapi_app lim ast_parse code g))
   \<and> prefix (log g) (log (parse_fastapi_app lim ast_parse code g))"
proof -
  have a: "parse_fastapi_app lim ast_parse code g = g" if "ast_parse code = Inr tree" "no_route tree"
  proof -
    from that(2) have "\<forall>n \<in> set [tree]. no_route n"
      by simp
    then have "\<forall>n \<in> set (walk [tree]). no_route n"
      by (rule walk_no_route)
    then have "fold (visit lim) (walk [tree]) g = g"
      by (rule fold_visit_no_route)
    with that(1) show ?thesis
      by (simp only: parse_fastapi_app_def sum.case)
  qed
  have b: "prefix (endpoints g) (endpoints (parse_fastapi_app lim ast_parse code g))
           \<and> prefix (log g) (log (parse_fastapi_app lim ast_parse code g))"
    by (cases "ast_parse code") (simp_all add: parse_fastapi_app_def fold_visit_grows del: walk.simps)
  have c: "ast_parse code = Inl e \<longrightarrow>
      endpoints (parse_fastapi_app lim ast_parse code g) = endpoints g
      \<and> log (parse_fastapi_app lim ast_parse code g) = log g @ [ErrorParsingApp e]"
    by (simp add: parse_fastapi_app_def)
  from a have d: "ast_parse code = Inr tree \<and> no_route tree \<longrightarrow>
        parse_fastapi_app lim ast_parse code g = g"
    by blast
  then have "ast_parse code = Inr tree \<and> no_route tree \<and> endpoints g = [] \<longrightarrow>
        endpoints (parse_fastapi_app lim ast_parse code g) = []"
    by auto
  with b c d show ?thesis
    by blast
qed


theorem parse_fastapi_app_no_exception_witness:
  "helper_parse ''def f(:'' = Inl SyntaxError
   \<and> endpoints (parse_fastapi_app example_frames helper_parse ''def f(:'' init) = []
   \<and> helper_parse ''helpers'' = Inr helper_module \<and> no_route helper_module
   \<and> endpoints (parse_fastapi_app example_frames helper_parse ''helpers'' init) = []"
proof -
  have a: "helper_parse ''def f(:'' = Inl SyntaxError"
    by (simp add: helper_parse_def)
  have b: "helper_parse ''helpers'' = Inr helper_module"
    by (simp add: helper_parse_def)
  have c: "no_route helper_module"
    by (simp add: helper_module_def)
  have d: "endpoints init = []"
    by (simp add: init_def)
  from parse_fastapi_app_no_exception [of helper_parse "''def f(:''" SyntaxError example_frames init] a d
  have "endpoints (parse_fastapi_app example_frames helper_parse ''def f(:'' init) = []"
    by simp
  moreover from parse_fastapi_app_no_exception [of helper_parse "''helpers''" _ example_frames init helper_module] b c d
  have "endpoints (parse_fastapi_app example_frames helper_parse ''helpers'' init) = []"
    by simp
  ultimately show ?thesis
    using a b c by simp
qed

section \<open>Decorator inspection\<close>

text \<open>
  C3, as stated, fails: the path variable is not reset between decorators, so a later
  route decorator without a path leaves the path of an earlier one, next to its own
  method; among several string arguments the last one is taken, not the first; and a
  keyword named \<^verbatim>\<open>path\<close> replaces the path of a string argument.
\<close>

theorem path_rules_counterexample:
  "endpoints (parse_endpoint example_frames two_routes init) = [route_record ''/a'' ''post'']
   \<and> endpoints (parse_endpoint example_frames two_strings init) = [route_record ''/b'' ''get'']
   \<and> endpoints (parse_endpoint example_frames string_and_keyword init) = [route_record ''/b'' ''get'']"
  by (simp add: eval_extract two_routes_def two_strings_def string_and_keyword_def)

lemma positional_path_last:
  "positional_path p as = (case rev (string_literals as) of [] \<Rightarrow> p | s # ss \<Rightarrow> CStr s)"
  by (induction p as rule: positional_path.induct) (simp_all split: list.splits)

lemma keyword_path_constants:
  "keyword_path p kws = Inr p' \<Longrightarrow> \<forall>v \<in> set (path_keywords kws). \<exists>c. v = Constant c"
  by (induction p kws rule: keyword_path.induct)
     (auto simp: path_keywords_def split: if_splits expr.splits)

lemma keyword_path_last:
  "keyword_path p kws = Inr p' \<Longrightarrow>
     p' = (case rev (path_keywords kws) of Constant c # vs \<Rightarrow> c | _ \<Rightarrow> p)"
proof (induction p kws rule: keyword_path.induct)
  case (1 p)
  then show ?case by (simp add: path_keywords_def)
next
  case (2 p k v kws)
  show ?case
  proof (cases "k = Some ''path''")
    case True
    with 2 obtain c where v: "v = Constant c" and r: "keyword_path c kws = Inr p'"
      by (auto split: expr.splits)
    have "\<forall>v \<in> set (path_keywords kws). \<exists>c. v = Constant c"
      using r by (rule keyword_path_constants)
    then have "rev (path_keywords kws) = [] \<or> (\<exists>c vs. rev (path_keywords kws) = Constant c # vs)"
      by (cases "rev (path_keywords kws)") (auto dest: arg_cong [where f = set])
    with 2(1) [OF True v r] True v show ?thesis
      by (auto simp: path_keywords_def)
  next
    case False
    with 2 show ?thesis
      by (simp add: path_keywords_def)
  qed
qed

lemma decorator_step_route:
  "decorator_step (p, m, a) (Call (Attribute obj attr) as kws) = Inr st \<Longrightarrow>
     st = (decorator_path p as kws, Some (lower attr), a)"
  by (auto simp: decorator_path_def positional_path_last split: sum.splits dest!: keyword_path_last)

lemma inspect_decorators_append:
  "inspect_decorators st (ds @ es) =
     (case inspect_decorators st ds of Inl e \<Rightarrow> Inl e | Inr st' \<Rightarrow> inspect_decorators st' es)"
  by (induction ds arbitrary: st) (simp_all split: sum.splits)




lemma keyword_path_returns:
  "\<forall>v \<in> set (path_keywords kws). is_constant v \<Longrightarrow> \<exists>p'. keyword_path p kws = Inr p'"
proof (induction p kws rule: keyword_path.induct)
  case (1 p)
  then show ?case by simp
next
  case (2 p k v kws)
  show ?case
  proof (cases "k = Some ''path''")
    case True
    with 2(3) obtain c where c: "v = Constant c"
      by (cases v) (simp_all add: path_keywords_def)
    from 2(3) True have "\<forall>v \<in> set (path_keywords kws). is_constant v"
      by (simp add: path_keywords_def)
    with 2(1) [OF True c] True c show ?thesis
      by simp
  next
    case False
    with 2(3) have "\<forall>v \<in> set (path_keywords kws). is_constant v"
      by (simp add: path_keywords_def)
    with 2(2) [OF False] False show ?thesis
      by simp
  qed
qed






lemma decorator_step_route_returns:
  "\<not> has_bad_path_keyword (Call (Attribute obj attr) as kws) \<Longrightarrow>
     decorator_step (p, m, a) (Call (Attribute obj attr) as kws)
       = Inr (decorator_path p as kws, Some (lower attr), a)"
proof -
  assume "\<not> has_bad_path_keyword (Call (Attribute obj attr) as kws)"
  then have "\<forall>v \<in> set (path_keywords kws). is_constant v"
    by simp
  then obtain p' where k: "keyword_path (positional_path p as) kws = Inr p'"
    using keyword_path_returns [of kws "positional_path p as"] by blast
  then have "decorator_step (p, m, a) (Call (Attribute obj attr) as kws) = Inr (p', Some (lower attr), a)"
    by simp
  with decorator_step_route [of p m a obj attr as kws "(p', Some (lower attr), a)"] show ?thesis
    by simp
qed

lemma decorator_path_cases:
  "\<forall>v \<in> set (path_keywords kws). is_constant v \<Longrightarrow>
     (path_keywords kws \<noteq> [] \<longrightarrow> Constant (decorator_path p as kws) = last (path_keywords kws))
     \<and> (path_keywords kws = [] \<and> string_literals as \<noteq> [] \<longrightarrow>
          decorator_path p as kws = CStr (last (string_literals as)))
     \<and> (path_keywords kws = [] \<and> string_literals as = [] \<longrightarrow> decorator_path p as kws = p)"
proof -
  assume c: "\<forall>v \<in> set (path_keywords kws). is_constant v"
  have 1: "Constant (decorator_path p as kws) = last (path_keywords kws)" if "path_keywords kws \<noteq> []"
  proof -
    from that obtain v vs where r: "rev (path_keywords kws) = v # vs"
      by (cases "rev (path_keywords kws)") simp_all
    then have l: "last (path_keywords kws) = v"
      by (metis last_rev list.sel(1) rev_rev_ident hd_rev that)
    from r have "v \<in> set (path_keywords kws)"
      by (metis list.set_intros(1) set_rev)
    with c obtain k where "v = Constant k"
      by (cases v) auto
    with r l show ?thesis
      by (simp add: decorator_path_def)
  qed
  have 2: "decorator_path p as kws = CStr (last (string_literals as))"
    if "path_keywords kws = []" "string_literals as \<noteq> []"
  proof -
    from that obtain s ss where r: "rev (string_literals as) = s # ss"
      by (cases "rev (string_literals as)") simp_all
    then have "last (string_literals as) = s"
      by (metis hd_rev list.sel(1) rev_rev_ident that(2) last_rev)
    with r that show ?thesis
      by (simp add: decorator_path_def)
  qed
  have 3: "decorator_path p as kws = p" if "path_keywords kws = []" "string_literals as = []"
    using that by (simp add: decorator_path_def)
  from 1 2 3 show ?thesis
    by blast
qed

text \<open>
  C3, amended. The inspection of the decorators ends with the lower-cased attribute of
  the last route decorator as the method, and with the path that decorator leaves: the
  value of its last keyword named \<^verbatim>\<open>path\<close>, else its last string argument, else the
  path \<open>p\<close> that the decorators before it had set, which is kept and joins the method
  of the last decorator. When that path is true as a condition, the attribute is not
  empty and the annotations have renderings, the record with that path and method is
  appended; and a record that is appended has that path and method.
\<close>

theorem last_route_decorator_wins:
  assumes "decorator_list f = pre @ Call (Attribute obj attr) as kws # post"
    and "\<forall>d \<in> set post. \<not> is_route_decorator d"
    and "inspect_decorators (CNone, None, False) pre = Inr (p, m, a)"
    and "\<not> has_bad_path_keyword (Call (Attribute obj attr) as kws)"
  shows "(\<exists>a'. inspect_decorators (CNone, None, False) (decorator_list f)
                 = Inr (decorator_path p as kws, Some (lower attr), a'))
         \<and> (path_keywords kws \<noteq> [] \<longrightarrow>
              Constant (decorator_path p as kws) = last (path_keywords kws))
         \<and> (path_keywords kws = [] \<and> string_literals as \<noteq> [] \<longrightarrow>
              decorator_path p as kws = CStr (last (string_literals as)))
         \<and> (path_keywords kws = [] \<and> string_literals as = [] \<longrightarrow> decorator_path p as kws = p)
         \<and> (truthy (decorator_path p as kws) \<and> attr \<noteq> [] \<and> annotations_render lim f \<longrightarrow>
              (\<exists>ep. endpoints (parse_endpoint lim f g) = endpoints g @ [ep]
                 \<and> path ep = decorator_path p as kws \<and> http_method ep = lower attr))
         \<and> (endpoints (parse_endpoint lim f g) = endpoints g @ [ep'] \<longrightarrow>
              path ep' = decorator_path p as kws \<and> http_method ep' = lower attr)"
proof -
  from assms(4) have c: "\<forall>v \<in> set (path_keywords kws). is_constant v"
    by simp
  have step: "decorator_step (p, m, a) (Call (Attribute obj attr) as kws)
                = Inr (decorator_path p as kws, Some (lower attr), a)"
    using assms(4) by (rule decorator_step_route_returns)
  from inspect_decorators_no_route [OF assms(2), of "decorator_path p as kws" "Some (lower attr)" a]
  obtain a' where post: "inspect_decorators (decorator_path p as kws, Some (lower attr), a) post
                           = Inr (decorator_path p as kws, Some (lower attr), a')"
    by blast
  have full: "inspect_decorators (CNone, None, False) (decorator_list f)
                = Inr (decorator_path p as kws, Some (lower attr), a')"
    by (simp add: assms(1) inspect_decorators_append assms(3) step post del: decorator_step.simps)
  have 1: "\<exists>ep. endpoints (parse_endpoint lim f g) = endpoints g @ [ep]
                 \<and> path ep = decorator_path p as kws \<and> http_method ep = lower attr"
    if t: "truthy (decorator_path p as kws)" "attr \<noteq> []" "annotations_render lim f"
  proof -
    from t(3) build_endpoint_returns [of lim f "decorator_path p as kws" "lower attr" a']
    obtain ep where b: "build_endpoint lim f (decorator_path p as kws) (lower attr) a' = Inr ep"
      by blast
    from t(2) have "lower attr \<noteq> []"
      by (simp add: lower_def)
    with full t(1) b have "extract_endpoint lim f = Inr (Some ep)"
      by (auto simp: extract_endpoint_Some)
    with build_endpoint_fields [OF b] show ?thesis
      by (simp add: endpoints_parse_endpoint)
  qed
  have 2: "path ep' = decorator_path p as kws \<and> http_method ep' = lower attr"
    if "endpoints (parse_endpoint lim f g) = endpoints g @ [ep']"
  proof -
    from that have "extract_endpoint lim f = Inr (Some ep')"
      by (auto simp: endpoints_parse_endpoint split: sum.splits option.splits)
    with full obtain a'' where "build_endpoint lim f (decorator_path p as kws) (lower attr) a'' = Inr ep'"
      by (auto simp: extract_endpoint_Some)
    from build_endpoint_fields [OF this] show ?thesis
      by simp
  qed
  from full decorator_path_cases [OF c, of p as] 1 2 show ?thesis
    by blast
qed

theorem last_route_decorator_wins_witness:
  "(\<exists>a'. inspect_decorators (CNone, None, False) (decorator_list two_routes)
           = Inr (CStr ''/a'', Some ''post'', a'))
   \<and> decorator_path (CStr ''/a'') [] [] = CStr ''/a''
   \<and> endpoints (parse_endpoint example_frames two_routes init)
       = endpoints init @ [route_record ''/a'' ''post'']"
proof -
  have a: "decorator_list two_routes =
      [Call (Attribute (Name ''router'') ''get'') [Constant (CStr ''/a'')] []]
        @ Call (Attribute (Name ''router'') ''post'') [] [] # []"
    by (simp add: two_routes_def handler_def)
  have b: "\<forall>d \<in> set []. \<not> is_route_decorator d"
    by simp
  have c: "inspect_decorators (CNone, None, False)
             [Call (Attribute (Name ''router'') ''get'') [Constant (CStr ''/a'')] []]
           = Inr (CStr ''/a'', Some ''get'', False)"
    by (simp add: lower_def lower_char_def)
  have d: "\<not> has_bad_path_keyword (Call (Attribute (Name ''router'') ''post'') [] [])"
    by (simp add: path_keywords_def)
  have e: "decorator_path (CStr ''/a'') [] [] = CStr ''/a''"
    by (simp add: decorator_path_def path_keywords_def)
  have l: "lower ''post'' = ''post''"
    by (simp add: lower_def lower_char_def)
  have r: "annotations_render example_frames two_routes"
    by (simp add: annotations_render_def renders_def two_routes_def handler_def)
  have k: "endpoints (parse_endpoint example_frames two_routes init)
             = endpoints init @ [route_record ''/a'' ''post'']"
    by (simp add: eval_extract two_routes_def)
  from last_route_decorator_wins [OF a b c d, of example_frames init "route_record ''/a'' ''post''"]
    e l r k
  show ?thesis
    by (auto simp: route_record_def)
qed

section \<open>Unexpected shapes\<close>





section \<open>Properties of the docstring interpreter\<close>

lemma docstring_line_header:
  "header_of l = Some h \<Longrightarrow> docstring_line l (c, d) = (h, d)"
  by (auto simp: docstring_line_def header_of_def Let_def split: if_splits)

lemma docstring_line_blank:
  "header_of l = None \<Longrightarrow> strip l = [] \<Longrightarrow> docstring_line l (c, d) = (c, d)"
  by (auto simp: docstring_line_def header_of_def Let_def split: if_splits)

lemma docstring_line_body:
  "header_of l = None \<Longrightarrow> strip l \<noteq> [] \<Longrightarrow>
     docstring_line l (c, d) =
       (c, (case c of
              SDescription \<Rightarrow> d\<lparr>doc_description := doc_description d @ strip l @ '' ''\<rparr>
            | SParameters \<Rightarrow> d\<lparr>doc_parameters := add_parameter (strip l) (doc_parameters d)\<rparr>
            | SReturns \<Rightarrow> d\<lparr>doc_returns := doc_returns d @ strip l @ '' ''\<rparr>
            | SRaises \<Rightarrow> d\<lparr>doc_raises := doc_raises d @ [strip l]\<rparr>))"
  by (auto simp: docstring_line_def header_of_def Let_def add_parameter_def
        split: if_splits doc_section.splits option.splits)


lemma section_lines_Cons:
  "section_lines c sec (l # ls) =
     (if c = sec \<and> header_of l = None \<and> strip l \<noteq> [] then [strip l] else [])
     @ section_lines (case header_of l of None \<Rightarrow> c | Some h \<Rightarrow> h) sec ls"
  by (simp add: section_lines_def)

lemma section_lines_Nil: "section_lines c sec [] = []"
  by (simp add: section_lines_def)

lemma fold_docstring_line:
  "fold docstring_line ls (c, d) =
     (last_header c ls,
      \<lparr>doc_description =
         doc_description d @ concat (map (\<lambda>l. l @ '' '') (section_lines c SDescription ls)),
       doc_parameters = fold add_parameter (section_lines c SParameters ls) (doc_parameters d),
       doc_returns = doc_returns d @ concat (map (\<lambda>l. l @ '' '') (section_lines c SReturns ls)),
       doc_raises = doc_raises d @ section_lines c SRaises ls\<rparr>)"
proof (induction ls arbitrary: c d)
  case Nil
  show ?case by (simp add: section_lines_Nil)
next
  case (Cons l ls)
  show ?case
  proof (cases "header_of l")
    case (Some h)
    then show ?thesis
      by (simp add: docstring_line_header Cons section_lines_Cons)
  next
    case None
    show ?thesis
    proof (cases "strip l = []")
      case True
      with None show ?thesis
        by (simp add: docstring_line_blank Cons section_lines_Cons)
    next
      case False
      with None show ?thesis
        by (cases c) (simp_all add: docstring_line_body Cons section_lines_Cons)
    qed
  qed
qed

lemma sections_of_nth:
  "i < length ls \<Longrightarrow> sections_of c ls ! i = last_header c (take i ls)"
proof (induction ls arbitrary: c i)
  case Nil
  then show ?case by simp
next
  case (Cons l ls)
  then show ?case by (cases i) simp_all
qed

lemma header_of_not_description: "header_of l \<noteq> Some SDescription"
  by (simp add: header_of_def)

lemma section_lines_left:
  "c \<noteq> SDescription \<Longrightarrow> section_lines c SDescription ls = []"
proof (induction ls arbitrary: c)
  case Nil
  show ?case by (simp add: section_lines_Nil)
next
  case (Cons l ls)
  have "(case header_of l of None \<Rightarrow> c | Some h \<Rightarrow> h) \<noteq> SDescription"
    using Cons.prems header_of_not_description [of l] by (cases "header_of l") auto
  with Cons show ?case
    by (simp add: section_lines_Cons)
qed

lemma section_lines_description:
  "section_lines SDescription SDescription ls =
     filter (\<lambda>l. l \<noteq> []) (map strip (takeWhile (\<lambda>l. header_of l = None) ls))"
proof (induction ls)
  case Nil
  show ?case by (simp add: section_lines_Nil)
next
  case (Cons l ls)
  show ?case
  proof (cases "header_of l")
    case None
    with Cons show ?thesis
      by (simp add: section_lines_Cons)
  next
    case (Some h)
    with header_of_not_description [of l] have "h \<noteq> SDescription"
      by auto
    with Some show ?thesis
      by (simp add: section_lines_Cons section_lines_left)
  qed
qed

text \<open>
  C6, amended. The sections are positional: the section of a line is that of the last
  header before it, the description when there is none, so the lines of the
  description are those before the first header. What a section receives are its
  trimmed, non-empty, non-header lines: description and returns the lines, each
  followed by a blank; raises the list of the lines; parameters an entry for each line
  of the shape \<^verbatim>\<open>name: text\<close>, a line of another shape adding nothing.
\<close>

theorem parse_docstring_positional:
  "parse_docstring s =
     \<lparr>doc_description =
        concat (map (\<lambda>l. l @ '' '') (section_lines SDescription SDescription (split_nl s))),
      doc_parameters = fold add_parameter (section_lines SDescription SParameters (split_nl s)) [],
      doc_returns =
        concat (map (\<lambda>l. l @ '' '') (section_lines SDescription SReturns (split_nl s))),
      doc_raises = section_lines SDescription SRaises (split_nl s)\<rparr>
   \<and> (\<forall>i < length (split_nl s).
         sections_of SDescription (split_nl s) ! i = last_header SDescription (take i (split_nl s)))
   \<and> section_lines SDescription SDescription (split_nl s) =
       filter (\<lambda>l. l \<noteq> []) (map strip (takeWhile (\<lambda>l. header_of l = None) (split_nl s)))"
  by (simp add: parse_docstring_def fold_docstring_line empty_sections_def sections_of_nth
        section_lines_description)

text \<open>
  C6, as stated, fails: a line under the parameters header that has not the shape
  \<^verbatim>\<open>name: text\<close> is appended to no section, and an empty line under the raises
  header is no entry of the list.
\<close>

theorem section_rule_counterexample:
  "parse_docstring doc_plain_parameter = empty_sections
   \<and> doc_raises (parse_docstring doc_blank_raises) = [''ValueError'']"
  by code_simp

theorem parse_docstring_positional_witness:
  "parse_docstring doc_example =
     \<lparr>doc_description = ''Does X. '', doc_parameters = [(''foo'', ''the foo value'')],
      doc_returns = ''The result. '', doc_raises = []\<rparr>
   \<and> 2 < length (split_nl doc_example)
   \<and> sections_of SDescription (split_nl doc_example) ! 2 = SParameters"
proof -
  have a: "concat (map (\<lambda>l. l @ '' '') (section_lines SDescription SDescription (split_nl doc_example)))
             = ''Does X. ''"
    by code_simp
  have b: "fold add_parameter (section_lines SDescription SParameters (split_nl doc_example)) []
             = [(''foo'', ''the foo value'')]"
    by code_simp
  have c: "concat (map (\<lambda>l. l @ '' '') (section_lines SDescription SReturns (split_nl doc_example)))
             = ''The result. ''"
    by code_simp
  have d: "section_lines SDescription SRaises (split_nl doc_example) = []"
    by code_simp
  have e: "2 < length (split_nl doc_example)"
    by code_simp
  have f: "last_header SDescription (take 2 (split_nl doc_example)) = SParameters"
    by code_simp
  from parse_docstring_positional [of doc_example]
  have 1: "parse_docstring doc_example =
     \<lparr>doc_description =
        concat (map (\<lambda>l. l @ '' '') (section_lines SDescription SDescription (split_nl doc_example))),
      doc_parameters = fold add_parameter (section_lines SDescription SParameters (split_nl doc_example)) [],
      doc_returns =
        concat (map (\<lambda>l. l @ '' '') (section_lines SDescription SReturns (split_nl doc_example))),
      doc_raises = section_lines SDescription SRaises (split_nl doc_example)\<rparr>"
    and 2: "\<forall>i < length (split_nl doc_example).
         sections_of SDescription (split_nl doc_example) ! i
           = last_header SDescription (take i (split_nl doc_example))"
    by blast+
  from 2 e have "sections_of SDescription (split_nl doc_example) ! 2
           = last_header SDescription (take 2 (split_nl doc_example))"
    by blast
  with 1 e f show ?thesis
    by (simp only: a b c d)
qed

section \<open>Properties of the emitters\<close>

lemma py_eq_refl: "py_eq a a"
  by (cases a) simp_all

lemma py_eq_sym: "py_eq a b \<Longrightarrow> py_eq b a"
  by (cases a; cases b) (simp_all split: if_splits)

lemma py_eq_trans: "py_eq a b \<Longrightarrow> py_eq b c \<Longrightarrow> py_eq a c"
  by (cases a; cases b; cases c) (simp_all split: if_splits)

lemma py_eq_left: "py_eq a b \<Longrightarrow> py_eq a c = py_eq b c"
  by (blast intro: py_eq_sym py_eq_trans)

lemma map_of_dict_set: "map_of (dict_set d k v) k' = (if k = k' then Some v else map_of d k')"
  by (induction d) auto

lemma keys_dict_set: "set (map fst (dict_set d k v)) = insert k (set (map fst d))"
proof (induction d)
  case Nil
  show ?case by simp
next
  case (Cons x d)
  obtain k' v' where x: "x = (k', v')" by (cases x)
  show ?case
  proof (cases "k' = k")
    case True
    with x show ?thesis by simp
  next
    case False
    with x Cons show ?thesis by (simp add: insert_commute)
  qed
qed

lemma distinct_dict_set: "distinct (map fst d) \<Longrightarrow> distinct (map fst (dict_set d k v))"
proof (induction d)
  case Nil
  show ?case by simp
next
  case (Cons x d)
  obtain k' v' where x: "x = (k', v')" by (cases x)
  show ?case
  proof (cases "k' = k")
    case True
    with x Cons.prems show ?thesis by simp
  next
    case False
    from Cons x have "distinct (map fst (dict_set d k v))" "k' \<notin> set (map fst d)"
      by simp_all
    with False x show ?thesis
      by (simp add: keys_dict_set del: set_map)
  qed
qed

lemma find_app: "find P (xs @ ys) = (case find P xs of None \<Rightarrow> find P ys | Some x \<Rightarrow> Some x)"
  by (induction xs) simp_all

lemma get_path_cong: "py_eq p q \<Longrightarrow> get_path ps p = get_path ps q"
proof (induction ps)
  case Nil
  show ?case by simp
next
  case (Cons x ps)
  obtain k v where x: "x = (k, v)" by (cases x)
  have "py_eq k p = py_eq k q"
    using Cons.prems by (blast intro: py_eq_sym py_eq_trans)
  with Cons x show ?case by simp
qed

lemma get_path_set_operation:
  "get_path (set_operation ps p0 m0 op) p =
     (if py_eq p0 p
      then Some (dict_set (case get_path ps p0 of None \<Rightarrow> [] | Some ms \<Rightarrow> ms) m0 op)
      else get_path ps p)"
proof (induction ps)
  case Nil
  show ?case by simp
next
  case (Cons x ps)
  obtain k ms where x: "x = (k, ms)" by (cases x)
  show ?case
  proof (cases "py_eq k p0")
    case True
    then have "py_eq k p = py_eq p0 p"
      by (rule py_eq_left)
    with True x show ?thesis by simp
  next
    case False
    have "\<not> py_eq k p" if "py_eq p0 p"
      using that False by (blast intro: py_eq_sym py_eq_trans)
    with False x Cons show ?thesis by simp
  qed
qed

lemma get_operation_set_operation:
  "get_operation (set_operation ps p0 m0 op) p m =
     (if py_eq p0 p \<and> m0 = m then Some op else get_operation ps p m)"
proof (cases "py_eq p0 p")
  case True
  then have "get_path ps p0 = get_path ps p"
    by (rule get_path_cong)
  with True show ?thesis
    by (simp add: get_operation_def get_path_set_operation map_of_dict_set split: option.splits)
next
  case False
  then show ?thesis
    by (simp add: get_operation_def get_path_set_operation)
qed

lemma openapi_paths_returns:
  "\<forall>e \<in> set es. \<exists>op. openapi_operation e = Inr op \<Longrightarrow> \<exists>ps'. openapi_paths ps es = Inr ps'"
proof (induction es arbitrary: ps)
  case Nil
  show ?case by simp
next
  case (Cons e es)
  then obtain op where "openapi_operation e = Inr op" by auto
  with Cons show ?case by simp
qed

lemma openapi_paths_last:
  "openapi_paths ps es = Inr ps' \<Longrightarrow>
     get_operation ps' p m =
       (case last_record p m es of
          None \<Rightarrow> get_operation ps p m
        | Some e \<Rightarrow> (case openapi_operation e of Inl err \<Rightarrow> None | Inr op \<Rightarrow> Some op))"
proof (induction es arbitrary: ps)
  case Nil
  then show ?case by (simp add: last_record_def)
next
  case (Cons e es)
  from Cons.prems obtain op where op: "openapi_operation e = Inr op"
    and rest: "openapi_paths (set_operation ps (path e) (http_method e) op) es = Inr ps'"
    by (auto split: sum.splits)
  have f: "last_record p m (e # es) =
      (case last_record p m es of None \<Rightarrow> (if same_route p m e then Some e else None) | Some x \<Rightarrow> Some x)"
    by (simp add: last_record_def find_app split: option.splits)
  from Cons.IH [OF rest] op show ?case
    by (simp add: f get_operation_set_operation same_route_def split: option.splits)
qed


lemma set_operation_distinct:
  "list_all (\<lambda>kv. distinct (map fst (snd kv))) ps \<Longrightarrow>
     list_all (\<lambda>kv. distinct (map fst (snd kv))) (set_operation ps p m op)"
  by (induction ps) (auto simp: distinct_dict_set)

lemma openapi_paths_distinct:
  "openapi_paths ps es = Inr ps' \<Longrightarrow> list_all (\<lambda>kv. distinct (map fst (snd kv))) ps \<Longrightarrow>
     list_all (\<lambda>kv. distinct (map fst (snd kv))) ps'"
proof (induction es arbitrary: ps)
  case Nil
  then show ?case by simp
next
  case (Cons e es)
  from Cons.prems(1) obtain op where
    rest: "openapi_paths (set_operation ps (path e) (http_method e) op) es = Inr ps'"
    by (auto split: sum.splits)
  from Cons.IH [OF rest set_operation_distinct [OF Cons.prems(2)]] show ?case .
qed

lemma get_path_distinct:
  "get_path ps p = Some ms \<Longrightarrow> list_all (\<lambda>kv. distinct (map fst (snd kv))) ps \<Longrightarrow>
     distinct (map fst ms)"
  by (induction ps) (auto split: if_splits)

lemma map_of_single:
  "distinct (map fst ms) \<Longrightarrow> map_of ms k = Some v \<Longrightarrow> filter (\<lambda>kv. fst kv = k) ms = [(k, v)]"
proof (induction ms)
  case Nil
  then show ?case by simp
next
  case (Cons x ms)
  obtain k' v' where x: "x = (k', v')" by (cases x)
  show ?case
  proof (cases "k' = k")
    case True
    with Cons.prems x have "v' = v" and "k \<notin> set (map fst ms)"
      by auto
    then have "filter (\<lambda>kv. fst kv = k) ms = []"
      by (auto simp: filter_empty_conv)
    with True x \<open>v' = v\<close> show ?thesis by simp
  next
    case False
    with Cons x show ?thesis by simp
  qed
qed

lemma get_path_group_add:
  "get_path (group_add gs e) p =
     (if py_eq (path e) p
      then Some ((case get_path gs p of None \<Rightarrow> [] | Some es \<Rightarrow> es) @ [e])
      else get_path gs p)"
proof (induction gs)
  case Nil
  show ?case by simp
next
  case (Cons x gs)
  obtain k es where x: "x = (k, es)" by (cases x)
  show ?case
  proof (cases "py_eq k (path e)")
    case True
    then have "py_eq k p = py_eq (path e) p"
      by (rule py_eq_left)
    with True x show ?thesis by simp
  next
    case False
    have "\<not> py_eq k p" if "py_eq (path e) p"
      using that False by (blast intro: py_eq_sym py_eq_trans)
    with False x Cons show ?thesis by simp
  qed
qed

lemma get_path_foldl_group_add:
  "get_path (foldl group_add gs es) p =
     (if filter (\<lambda>e. py_eq (path e) p) es = [] then get_path gs p
      else Some ((case get_path gs p of None \<Rightarrow> [] | Some l \<Rightarrow> l) @ filter (\<lambda>e. py_eq (path e) p) es))"
  by (induction es arbitrary: gs) (simp_all add: get_path_group_add)

lemma get_path_group_endpoints:
  "get_path (group_endpoints es) p =
     (if filter (\<lambda>e. py_eq (path e) p) es = [] then None
      else Some (filter (\<lambda>e. py_eq (path e) p) es))"
  by (simp add: group_endpoints_def get_path_foldl_group_add)

lemma collect_returns:
  "\<forall>x \<in> set xs. f x = Inr (h x) \<Longrightarrow> collect f xs = Inr (concat (map h xs))"
  by (induction xs) simp_all

lemma group_add_members:
  "(\<Union>gr \<in> set (group_add gs e). set (snd gr)) = insert e (\<Union>gr \<in> set gs. set (snd gr))"
proof (induction gs)
  case Nil
  show ?case by simp
next
  case (Cons x gs)
  obtain k es where x: "x = (k, es)" by (cases x)
  show ?case
  proof (cases "py_eq k (path e)")
    case True
    with x show ?thesis by auto
  next
    case False
    with x Cons show ?thesis by auto
  qed
qed

lemma foldl_group_add_members:
  "(\<Union>gr \<in> set (foldl group_add gs es). set (snd gr)) = set es \<union> (\<Union>gr \<in> set gs. set (snd gr))"
  by (induction es arbitrary: gs) (simp_all add: group_add_members)

lemma group_endpoints_members:
  "gr \<in> set (group_endpoints es) \<Longrightarrow> set (snd gr) \<subseteq> set es"
  using foldl_group_add_members [of "[]" es] by (auto simp: group_endpoints_def)


lemma last_record_duplicate:
  assumes "\<forall>e \<in> set post. \<not> same_route (path b) (http_method b) e"
  shows "last_record (path b) (http_method b) (pre @ a # mid @ b # post) = Some b"
proof -
  have "find (same_route (path b) (http_method b)) (rev post) = None"
    using assms by (simp add: find_None_iff)
  then show ?thesis
    by (simp add: last_record_def find_app same_route_def py_eq_refl)
qed




text \<open>
  Two records of the same path and method, both with a parsed docstring and a string
  path, in a Catalog of such records, the second being the last of that path and
  method: the OpenAPI emitter returns a document in which the entry of the path and
  method is the operation of the second record, the only entry of that method; and
  the group of the path holds the records of that path in the order of the Catalog.
\<close>

lemma openapi_operation_returns:
  "description e = Sections d \<Longrightarrow> path e = CStr p \<Longrightarrow>
     openapi_operation e =
       Inr \<lparr>summary = doc_description d,
            op_parameters = map (openapi_param p) (parameters e),
            response_schema_type = lower (case response e of None \<Rightarrow> ''object'' | Some t \<Rightarrow> t),
            security = (if auth_required e then Some [(''bearerAuth'', [])] else None)\<rparr>"
  by (simp add: openapi_operation_def)

lemma documented_duplicates_last_write_wins:
  assumes "endpoints g = pre @ a # mid @ b # post"
    and "py_eq (path a) (path b)" and "http_method a = http_method b"
    and "\<forall>e \<in> set post. \<not> same_route (path b) (http_method b) e"
    and "\<forall>e \<in> set (endpoints g). \<exists>d p. description e = Sections d \<and> path e = CStr p"
  shows "(\<exists>spec opb ms d. generate_openapi_spec g = Inr spec
            \<and> openapi_operation b = Inr opb
            \<and> get_operation (paths spec) (path b) (http_method b) = Some opb
            \<and> description b = Sections d \<and> summary opb = doc_description d
            \<and> get_path (paths spec) (path b) = Some ms
            \<and> filter (\<lambda>kv. fst kv = http_method b) ms = [(http_method b, opb)])
         \<and> get_path (group_endpoints (endpoints g)) (path b) =
             Some (filter (\<lambda>e. py_eq (path e) (path b)) pre @ a
                   # filter (\<lambda>e. py_eq (path e) (path b)) mid @ b
                   # filter (\<lambda>e. py_eq (path e) (path b)) post)"
proof -
  from assms(5) have r: "\<forall>e \<in> set (endpoints g). \<exists>op. openapi_operation e = Inr op"
    by (metis openapi_operation_returns)
  then obtain ps where ps: "openapi_paths [] (endpoints g) = Inr ps"
    using openapi_paths_returns [of "endpoints g" "[]"] by blast
  from assms(1) r obtain opb where opb: "openapi_operation b = Inr opb"
    by auto
  then obtain d where d: "description b = Sections d" "summary opb = doc_description d"
    by (cases "description b") (auto simp: openapi_operation_def split: sum.splits)
  have lr: "last_record (path b) (http_method b) (endpoints g) = Some b"
    using assms(1) last_record_duplicate [OF assms(4)] by simp
  have g1: "get_operation ps (path b) (http_method b) = Some opb"
    using openapi_paths_last [OF ps, of "path b" "http_method b"] lr opb by simp
  then obtain ms where ms: "get_path ps (path b) = Some ms" "map_of ms (http_method b) = Some opb"
    by (auto simp: get_operation_def split: option.splits)
  have "list_all (\<lambda>kv. distinct (map fst (snd kv))) ps"
    using openapi_paths_distinct [OF ps] by simp
  with ms(1) have "distinct (map fst ms)"
    by (rule get_path_distinct)
  then have one: "filter (\<lambda>kv. fst kv = http_method b) ms = [(http_method b, opb)]"
    using ms(2) by (rule map_of_single)
  have spec: "generate_openapi_spec g =
      Inr \<lparr>openapi = ''3.0.0'',
           info = [(''title'', ''API Documentation''), (''version'', ''1.0.0'')],
           paths = ps\<rparr>"
    using ps by (simp add: generate_openapi_spec_def)
  have first: "\<exists>spec opb ms d. generate_openapi_spec g = Inr spec
            \<and> openapi_operation b = Inr opb
            \<and> get_operation (paths spec) (path b) (http_method b) = Some opb
            \<and> description b = Sections d \<and> summary opb = doc_description d
            \<and> get_path (paths spec) (path b) = Some ms
            \<and> filter (\<lambda>kv. fst kv = http_method b) ms = [(http_method b, opb)]"
    using spec opb g1 d ms(1) one by simp
  have grp: "get_path (group_endpoints (endpoints g)) (path b) =
             Some (filter (\<lambda>e. py_eq (path e) (path b)) pre @ a
                   # filter (\<lambda>e. py_eq (path e) (path b)) mid @ b
                   # filter (\<lambda>e. py_eq (path e) (path b)) post)"
    using assms(1,2) by (simp add: get_path_group_endpoints py_eq_refl)
  from first grp show ?thesis
    by blast
qed

text \<open>The documents of the Catalog \<open>dup_catalog\<close>, whose two records have a docstring.\<close>

lemma documented_duplicates_documents:
  "generate_openapi_spec dup_catalog =
     Inr \<lparr>openapi = ''3.0.0'',
          info = [(''title'', ''API Documentation''), (''version'', ''1.0.0'')],
          paths = [(CStr ''/dup'',
                    [(''get'', \<lparr>summary = ''Second. '', op_parameters = [],
                                response_schema_type = ''object'', security = None\<rparr>)])]\<rparr>"
  "markdown_lines str_upper dup_catalog =
     Inr [''# API Documentation'' @ nl @ nl,
          ''## /dup'' @ nl,
          ''### '' @ str_upper ''get'' @ nl, ''First. '' @ nl, nl @ ''---'' @ nl,
          ''### '' @ str_upper ''get'' @ nl, ''Second. '' @ nl, nl @ ''---'' @ nl]"
  by (simp_all add: generate_openapi_spec_def markdown_lines_def markdown_path_def
        markdown_endpoint_def group_endpoints_def dup_catalog_def dup_first_def dup_second_def
        documented_def empty_sections_def openapi_operation_def lower_def lower_char_def)

text \<open>
  C9. The claim says that with two records of the same path and method the OpenAPI
  emitter keeps the second and the Markdown emitter lists both, without error. For
  two handlers of \<^verbatim>\<open>get /dup\<close> that have no docstring the Catalog holds two records
  whose description is the empty string, and both emitters raise \<^verbatim>\<open>AttributeError\<close>
  at the first \<^verbatim>\<open>endpoint.description.get\<close>: no document is returned.
\<close>

theorem undocumented_duplicates_raise:
  "endpoints (parse_fastapi_app example_frames duplicates_parse ''duplicates'' init)
     = [route_record ''/dup'' ''get'', route_record ''/dup'' ''get'']
   \<and> log (parse_fastapi_app example_frames duplicates_parse ''duplicates'' init) = []
   \<and> generate_openapi_spec (parse_fastapi_app example_frames duplicates_parse ''duplicates'' init)
       = Inl AttributeError
   \<and> generate_markdown_docs str_upper
        (parse_fastapi_app example_frames duplicates_parse ''duplicates'' init)
       = Inl AttributeError"
proof -
  have w: "walk [undocumented_duplicates] =
      [undocumented_duplicates,
       FunctionDef
          (handler ''first'' [Call (Attribute (Name ''router'') ''get'') [Constant (CStr ''/dup'')] []])
          [OtherNode []],
       FunctionDef
          (handler ''second'' [Call (Attribute (Name ''router'') ''get'') [Constant (CStr ''/dup'')] []])
          [OtherNode []],
       OtherNode [], OtherNode []]"
    by (simp add: undocumented_duplicates_def)
  have p: "parse_fastapi_app example_frames duplicates_parse ''duplicates'' init
             = \<lparr>endpoints = [route_record ''/dup'' ''get'', route_record ''/dup'' ''get''], log = []\<rparr>"
  proof -
    have "parse_fastapi_app example_frames duplicates_parse ''duplicates'' init
            = fold (visit example_frames) (walk [undocumented_duplicates]) init"
      by (simp add: parse_fastapi_app_def duplicates_parse_def del: walk.simps)
    also have "\<dots> = \<lparr>endpoints = [route_record ''/dup'' ''get'', route_record ''/dup'' ''get''],
                        log = []\<rparr>"
      by (simp only: w) (simp add: undocumented_duplicates_def parse_endpoint_def eval_extract)
    finally show ?thesis .
  qed
  show ?thesis
    by (simp add: p generate_openapi_spec_def openapi_operation_def route_record_def
          generate_markdown_docs_def markdown_lines_def markdown_path_def markdown_endpoint_def
          group_endpoints_def)
qed




section \<open>Rendering, reading back, rendering\<close>

lemma digit_char_code: "d < 10 \<Longrightarrow> (of_char (digit_char d) :: nat) = 48 + d"
  by (simp add: digit_char_def)

lemma digit_char_digit: "d < 10 \<Longrightarrow> is_digit (digit_char d)"
  by (simp add: is_digit_def digit_char_code)

lemma str_nat_digits: "list_all is_digit (str_nat n)"
proof (induction n rule: str_nat.induct)
  case (1 n)
  show ?case
  proof (cases "n < 10")
    case True
    then show ?thesis
      by (simp add: str_nat_digit digit_char_digit)
  next
    case False
    with 1 show ?thesis
      by (simp add: str_nat_step digit_char_digit)
  qed
qed

lemma str_nat_hd: "0 < n \<Longrightarrow> hd (str_nat n) \<noteq> CHR ''0''"
proof (induction n rule: str_nat.induct)
  case (1 n)
  show ?case
  proof (cases "n < 10")
    case True
    with 1(2) have "(of_char (digit_char n) :: nat) \<noteq> of_char CHR ''0''"
      by (simp add: digit_char_code)
    then have "digit_char n \<noteq> CHR ''0''"
      by auto
    with True show ?thesis
      by (simp add: str_nat_digit)
  next
    case False
    then have "0 < n div 10"
      by simp
    with 1(1) False have "hd (str_nat (n div 10)) \<noteq> CHR ''0''"
      by simp
    with False show ?thesis
      by (simp add: str_nat_step str_nat_not_Nil)
  qed
qed

lemma str_nat_zero: "str_nat 0 = ''0''"
  by code_simp

lemma read_nat_snoc: "read_nat (ds @ [c]) = 10 * read_nat ds + ((of_char c :: nat) - 48)"
  by (simp add: read_nat_def)

lemma read_nat_str_nat: "read_nat (str_nat n) = n"
proof (induction n rule: str_nat.induct)
  case (1 n)
  show ?case
  proof (cases "n < 10")
    case True
    then show ?thesis
      by (simp add: str_nat_digit read_nat_def digit_char_code)
  next
    case False
    with 1 have "read_nat (str_nat (n div 10)) = n div 10"
      by simp
    with False show ?thesis
      by (simp add: str_nat_step read_nat_snoc digit_char_code)
  qed
qed

lemma word_token_str_nat:
  "length (str_nat n) \<le> max_str_digits \<Longrightarrow> word_token (str_nat n) = Some (TInt n)"
proof -
  assume l: "length (str_nat n) \<le> max_str_digits"
  have "str_nat n = ''0'' \<or> hd (str_nat n) \<noteq> CHR ''0''"
    using str_nat_hd [of n] str_nat_zero by (cases "n = 0") simp_all
  with l show ?thesis
    by (simp add: word_token_def str_nat_digits read_nat_str_nat)
qed

lemma is_digit_ident: "is_digit c \<Longrightarrow> is_ident_char c"
  by (simp add: is_ident_char_def)

lemma ident_start_not_digit: "is_ident_start c \<Longrightarrow> \<not> is_digit c"
  by (auto simp: is_ident_start_def is_digit_def Let_def)

lemma word_token_identifier: "is_identifier i \<Longrightarrow> word_token i = Some (TName i)"
proof -
  assume i: "is_identifier i"
  then have "i \<noteq> []" and s: "is_ident_start (hd i)"
    by (simp_all add: is_identifier_def)
  then have "\<not> list_all is_digit i"
    using ident_start_not_digit [of "hd i"] by (cases i) auto
  with s show ?thesis
    by (simp add: word_token_def)
qed

lemma tokenize_word:
  "list_all is_ident_char w \<Longrightarrow> tokenize cur (w @ rest) = tokenize (cur @ w) rest"
proof (induction w arbitrary: cur)
  case Nil
  show ?case by simp
next
  case (Cons c w)
  from Cons.prems have "tokenize (cur @ [c]) (w @ rest) = tokenize ((cur @ [c]) @ w) rest"
    by (intro Cons.IH) simp
  with Cons.prems show ?case by simp
qed

lemma tokenize_boundary:
  assumes "rest = [] \<or> \<not> is_ident_char (hd rest)"
  shows "tokenize cur rest = (case tokenize [] rest of None \<Rightarrow> None | Some ts \<Rightarrow> flush cur ts)"
proof (cases rest)
  case Nil
  then show ?thesis by (simp add: flush_def)
next
  case (Cons c cs)
  with assms have "\<not> is_ident_char c" by simp
  with Cons show ?thesis
    by (simp add: flush_def split: option.splits)
qed

lemma tokenize_token:
  assumes "w \<noteq> []" "list_all is_ident_char w" "word_token w = Some t"
    and "rest = [] \<or> \<not> is_ident_char (hd rest)"
  shows "tokenize [] (w @ rest) = (case tokenize [] rest of None \<Rightarrow> None | Some ts \<Rightarrow> Some (t # ts))"
proof -
  from assms(2) have "tokenize [] (w @ rest) = tokenize ([] @ w) rest"
    by (rule tokenize_word)
  with tokenize_boundary [OF assms(4), of w] assms(1,3) show ?thesis
    by (simp add: flush_def split: option.splits)
qed

lemma fallback_words:
  "list_all is_ident_char ''Any'' \<and> word_token ''Any'' = Some (TName ''Any'')
     \<and> atom ''Any'' = Some (Name ''Any'')"
  "list_all is_ident_char ''None'' \<and> word_token ''None'' = Some (TName ''None'')
     \<and> atom ''None'' = Some (Constant CNone)"
  "list_all is_ident_char ''True'' \<and> word_token ''True'' = Some (TName ''True'')
     \<and> atom ''True'' = Some (Constant (CBool True))"
  "list_all is_ident_char ''False'' \<and> word_token ''False'' = Some (TName ''False'')
     \<and> atom ''False'' = Some (Constant (CBool False))"
  "list_all is_ident_char ''Ellipsis'' \<and> word_token ''Ellipsis'' = Some (TName ''Ellipsis'')
     \<and> atom ''Ellipsis'' = Some (Name ''Ellipsis'')"
  "\<not> is_ident_char CHR ''['' \<and> \<not> is_ident_char CHR '']''"
  "punctuation CHR ''['' = Some [TLBracket] \<and> punctuation CHR '']'' = Some [TRBracket]"
  by code_simp+

text \<open>The rendering of a node that is no subscript is one word, with the token of the node.\<close>

lemma render_word:
  assumes "reparsable e" and "\<forall>v s. e \<noteq> Subscript v s" and "get_type_hint lim e = Inr w"
  shows "w \<noteq> [] \<and> list_all is_ident_char w \<and> (\<exists>t. word_token w = Some t \<and> tokens_of e = [t])"
proof -
  from assms(3) obtain n where lim: "lim = Suc n"
    by (cases lim) simp_all
  show ?thesis
  proof (cases e)
    case (Name i)
    with assms lim show ?thesis
      by (auto simp: is_identifier_def word_token_identifier)
  next
    case (Constant c)
    show ?thesis
    proof (cases c)
      case (CInt i)
      with assms(1) Constant have i: "0 \<le> i" by simp
      with assms(3) lim Constant CInt have w: "w = str_nat (nat i)"
        and l: "length (str_nat (nat i)) \<le> max_str_digits"
        by (auto simp: str_int_def split: if_splits)
      from str_nat_digits [of "nat i"] have "list_all is_ident_char (str_nat (nat i))"
        by (auto simp: list_all_iff is_digit_ident)
      with w word_token_str_nat [OF l] Constant CInt show ?thesis
        by (simp add: str_nat_not_Nil)
    qed (use assms lim Constant fallback_words in \<open>auto split: if_splits\<close>)
  qed (use assms lim fallback_words in auto)
qed

lemma tokenize_leaf:
  assumes "reparsable e" and "\<forall>v s. e \<noteq> Subscript v s" and "get_type_hint lim e = Inr w"
    and "rest = [] \<or> \<not> is_ident_char (hd rest)"
  shows "tokenize [] (w @ rest)
           = (case tokenize [] rest of None \<Rightarrow> None | Some ts \<Rightarrow> Some (tokens_of e @ ts))"
proof -
  from render_word [OF assms(1-3)] obtain t where w: "w \<noteq> []" "list_all is_ident_char w"
    "word_token w = Some t" and t: "tokens_of e = [t]"
    by blast
  from tokenize_token [OF w assms(4)] t show ?thesis
    by (cases "tokenize [] rest") simp_all
qed

lemma tokenize_render:
  "reparsable e \<Longrightarrow> get_type_hint lim e = Inr w \<Longrightarrow> rest = [] \<or> \<not> is_ident_char (hd rest) \<Longrightarrow>
     tokenize [] (w @ rest)
       = (case tokenize [] rest of None \<Rightarrow> None | Some ts \<Rightarrow> Some (tokens_of e @ ts))"
proof (induction e arbitrary: lim w rest)
  case (Subscript v s)
  from Subscript.prems(2) obtain n where lim: "lim = Suc n"
    by (cases lim) simp_all
  with Subscript.prems(2) obtain a b where a: "get_type_hint n v = Inr a"
    and b: "get_type_hint n s = Inr b" and w: "w = a @ ''['' @ b @ '']''"
    by (auto split: sum.splits)
  from Subscript.prems(1) have rv: "reparsable v" and rs: "reparsable s"
    by simp_all
  have 1: "tokenize [] (a @ CHR ''['' # b @ CHR '']'' # rest)
        = (case tokenize [] (CHR ''['' # b @ CHR '']'' # rest) of
             None \<Rightarrow> None | Some ts \<Rightarrow> Some (tokens_of v @ ts))"
    using fallback_words by (intro Subscript.IH(1) [OF rv a]) simp
  have 2: "tokenize [] (b @ CHR '']'' # rest)
        = (case tokenize [] (CHR '']'' # rest) of
             None \<Rightarrow> None | Some ts \<Rightarrow> Some (tokens_of s @ ts))"
    using fallback_words by (intro Subscript.IH(2) [OF rs b]) simp
  have 3: "tokenize [] (CHR ''['' # xs)
             = (case tokenize [] xs of None \<Rightarrow> None | Some ts \<Rightarrow> Some (TLBracket # ts))"
    "tokenize [] (CHR '']'' # xs)
             = (case tokenize [] xs of None \<Rightarrow> None | Some ts \<Rightarrow> Some (TRBracket # ts))" for xs
    using fallback_words by (simp_all add: flush_def split: option.splits)
  show ?case
    by (simp add: w 1 2 3 del: tokenize.simps split: option.splits)
qed (rule tokenize_leaf; simp)+

lemma parse_tokens_leaf:
  "reparsable e \<Longrightarrow> \<forall>v s. e \<noteq> Subscript v s \<Longrightarrow>
     parse_tokens None stack (tokens_of e @ ts) = parse_tokens (Some (reparsed e)) stack ts"
proof (cases e)
  case (Name i)
  assume "reparsable e"
  with Name show ?thesis
    by (simp add: is_identifier_def)
next
  case (Constant c)
  assume "reparsable e"
  with Constant fallback_words show ?thesis
    by (cases c) auto
qed (use fallback_words in auto)

lemma parse_tokens_render:
  "reparsable e \<Longrightarrow> length stack + bracket_depth e \<le> max_nesting \<Longrightarrow>
     parse_tokens None stack (tokens_of e @ ts) = parse_tokens (Some (reparsed e)) stack ts"
proof (induction e arbitrary: stack ts)
  case (Subscript v s)
  from Subscript.prems have rv: "reparsable v" and rs: "reparsable s"
    and dv: "length stack + bracket_depth v \<le> max_nesting"
    and ds: "length (reparsed v # stack) + bracket_depth s \<le> max_nesting"
    and l: "\<not> max_nesting \<le> length stack"
    by simp_all
  have "parse_tokens None stack (tokens_of (Subscript v s) @ ts)
      = parse_tokens None stack (tokens_of v @ TLBracket # tokens_of s @ TRBracket # ts)"
    by simp
  also have "\<dots> = parse_tokens (Some (reparsed v)) stack (TLBracket # tokens_of s @ TRBracket # ts)"
    by (rule Subscript.IH(1) [OF rv dv])
  also have "\<dots> = parse_tokens None (reparsed v # stack) (tokens_of s @ TRBracket # ts)"
    using l by simp
  also have "\<dots> = parse_tokens (Some (reparsed s)) (reparsed v # stack) (TRBracket # ts)"
    by (rule Subscript.IH(2) [OF rs ds])
  also have "\<dots> = parse_tokens (Some (reparsed (Subscript v s))) stack ts"
    by simp
  finally show ?case .
qed (simp_all only: parse_tokens_leaf expr.distinct not_False_eq_True simp_thms)

lemma render_reparsed:
  "reparsable e \<Longrightarrow> get_type_hint lim e = Inr w \<Longrightarrow> get_type_hint lim (reparsed e) = Inr w"
proof (induction lim arbitrary: e w)
  case 0
  then show ?case by simp
next
  case (Suc n)
  show ?case
  proof (cases e)
    case (Subscript v s)
    with Suc.prems obtain a b where a: "get_type_hint n v = Inr a"
      and b: "get_type_hint n s = Inr b" and w: "w = a @ ''['' @ b @ '']''"
      by (auto split: sum.splits)
    from Suc.prems(1) Subscript have "reparsable v" "reparsable s"
      by simp_all
    with Suc.IH a b w Subscript show ?thesis
      by simp
  next
    case (Constant c)
    with Suc.prems show ?thesis
      by (cases c) auto
  qed (use Suc.prems in auto)
qed

lemma subscript_depth_reparsed: "subscript_depth (reparsed e) = subscript_depth e"
proof (induction e)
  case (Constant c)
  show ?case by (cases c) simp_all
qed simp_all

lemma render_not_blank:
  "reparsable e \<Longrightarrow> get_type_hint lim e = Inr w \<Longrightarrow> w \<noteq> [] \<and> hd w \<noteq> CHR '' ''"
proof (induction e arbitrary: lim w)
  case (Subscript v s)
  from Subscript.prems(2) obtain n where lim: "lim = Suc n"
    by (cases lim) simp_all
  with Subscript.prems(2) obtain a b where a: "get_type_hint n v = Inr a"
    and w: "w = a @ ''['' @ b @ '']''"
    by (auto split: sum.splits)
  from Subscript.prems(1) have "reparsable v"
    by simp
  from Subscript.IH(1) [OF this a] w show ?case
    by simp
next
  case (Name i)
  from render_word [OF Name(1) _ Name(2)] show ?case
    by (cases w) (auto simp: is_ident_char_def is_ident_start_def is_digit_def Let_def)
next
  case (Attribute x n)
  from render_word [OF Attribute(2) _ Attribute(3)] show ?case
    by (cases w) (auto simp: is_ident_char_def is_ident_start_def is_digit_def Let_def)
next
  case (Call f as kws)
  from render_word [OF Call(4) _ Call(5)] show ?case
    by (cases w) (auto simp: is_ident_char_def is_ident_start_def is_digit_def Let_def)
next
  case (Constant c)
  from render_word [OF Constant(1) _ Constant(2)] show ?case
    by (cases w) (auto simp: is_ident_char_def is_ident_start_def is_digit_def Let_def)
next
  case (Tuple xs)
  from render_word [OF Tuple(2) _ Tuple(3)] show ?case
    by (cases w) (auto simp: is_ident_char_def is_ident_start_def is_digit_def Let_def)
next
  case OtherExpr
  from render_word [OF OtherExpr(1) _ OtherExpr(2)] show ?case
    by (cases w) (auto simp: is_ident_char_def is_ident_start_def is_digit_def Let_def)
qed

lemma get_type_hint_returns:
  "subscript_depth e \<le> lim \<Longrightarrow> int_digits_ok e \<Longrightarrow> \<exists>w. get_type_hint lim e = Inr w"
proof (induction lim arbitrary: e)
  case 0
  then show ?case by (cases e) simp_all
next
  case (Suc n)
  show ?case
  proof (cases e)
    case (Subscript v s)
    with Suc.prems have "subscript_depth v \<le> n" "subscript_depth s \<le> n"
      "int_digits_ok v" "int_digits_ok s"
      by simp_all
    with Suc.IH obtain a b where "get_type_hint n v = Inr a" "get_type_hint n s = Inr b"
      by blast
    with Subscript show ?thesis
      by simp
  next
    case (Constant c)
    with Suc.prems show ?thesis
      by (cases c) (simp_all add: str_int_def)
  qed simp_all
qed

lemma get_type_hint_returned:
  "get_type_hint lim e = Inr w \<Longrightarrow> subscript_depth e \<le> lim \<and> int_digits_ok e"
proof (induction lim arbitrary: e w)
  case 0
  then show ?case by simp
next
  case (Suc n)
  show ?case
  proof (cases e)
    case (Subscript v s)
    with Suc.prems obtain a b where "get_type_hint n v = Inr a" "get_type_hint n s = Inr b"
      by (auto split: sum.splits)
    with Suc.IH Subscript show ?thesis
      by fastforce
  next
    case (Constant c)
    with Suc.prems show ?thesis
      by (cases c) (auto simp: str_int_def split: if_splits)
  qed simp_all
qed

text \<open>A row of as many subscripts as frames are left does not fit.\<close>

lemma subscript_chain_raises: "get_type_hint n (subscript_chain n) = Inl RecursionError"
  by (induction n) simp_all

text \<open>
  C5, amended. For an annotation as the parser gives it, without string constants
  (names that are identifiers, integers that are not negative, the other constants,
  subscripts, and nodes of kinds the renderer has no branch for), within the limits of
  the interpreter: the frames left hold the depth of the subscripts, \<^verbatim>\<open>str\<close> converts
  the integers, no more brackets are open at once than the parser reads, and the tree
  is no deeper than the parser builds. Then the rendering returns a text, the parser
  reads the text back as a tree, and rendering that tree returns the same text.
\<close>

theorem render_reparse_render:
  "reparsable e \<Longrightarrow> subscript_depth e \<le> lim \<Longrightarrow> int_digits_ok e \<Longrightarrow>
     bracket_depth e \<le> max_nesting \<Longrightarrow> subscript_depth e \<le> tree_limit \<Longrightarrow>
     \<exists>w. get_type_hint lim e = Inr w
       \<and> parse_annotation tree_limit w = Some (reparsed e)
       \<and> get_type_hint lim (reparsed e) = Inr w"
proof -
  assume r: "reparsable e" and f: "subscript_depth e \<le> lim" and i: "int_digits_ok e"
    and b: "bracket_depth e \<le> max_nesting" and d: "subscript_depth e \<le> tree_limit"
  from get_type_hint_returns [OF f i] obtain w where g: "get_type_hint lim e = Inr w"
    by blast
  from tokenize_render [OF r g, of "[]"]
  have "tokenize [] w = Some (tokens_of e)"
    by (simp add: flush_def)
  moreover from parse_tokens_render [OF r, of "[]" "[]"] b
  have "parse_tokens None [] (tokens_of e) = Some (reparsed e)"
    by simp
  ultimately have "parse_annotation tree_limit w = Some (reparsed e)"
    using render_not_blank [OF r g] d
    by (simp add: parse_annotation_def subscript_depth_reparsed)
  with g render_reparsed [OF r g] show ?thesis
    by blast
qed

theorem render_reparse_render_witness:
  "get_type_hint example_frames literal_generic = Inr ''Literal[16]''
   \<and> parse_annotation example_frames ''Literal[16]'' = Some literal_generic
   \<and> get_type_hint example_frames nested_generic = Inr ''List[Dict[Any]]''
   \<and> parse_annotation example_frames ''List[Dict[Any]]''
       = Some (Subscript (Name ''List'') (Subscript (Name ''Dict'') (Name ''Any'')))
   \<and> get_type_hint example_frames (Subscript (Name ''List'') (Subscript (Name ''Dict'') (Name ''Any'')))
       = Inr ''List[Dict[Any]]''"
proof -
  have a: "reparsable literal_generic" "subscript_depth literal_generic \<le> example_frames"
    "int_digits_ok literal_generic" "bracket_depth literal_generic \<le> max_nesting"
    by code_simp+
  have b: "reparsable nested_generic" "subscript_depth nested_generic \<le> example_frames"
    "int_digits_ok nested_generic" "bracket_depth nested_generic \<le> max_nesting"
    by code_simp+
  have c: "get_type_hint example_frames literal_generic = Inr ''Literal[16]''"
    "get_type_hint example_frames nested_generic = Inr ''List[Dict[Any]]''"
    by code_simp+
  have d: "reparsed literal_generic = literal_generic"
    "reparsed nested_generic = Subscript (Name ''List'') (Subscript (Name ''Dict'') (Name ''Any''))"
    by (simp_all add: literal_generic_def nested_generic_def)
  from render_reparse_render [OF a a(2)] render_reparse_render [OF b b(2)] c d show ?thesis
    by auto
qed

text \<open>
  C5, as stated, fails: a string constant renders as its own text. The annotation
  \<^verbatim>\<open>"List[ int ]"\<close>, written as a string, renders with its blanks, the text is read back
  as a subscript, and the subscript renders without them. And the rendering of an
  integer with more digits than \<^verbatim>\<open>str\<close> converts, or of more subscripts in a row than
  frames are left, returns no text at all.
\<close>

theorem string_annotation_counterexample:
  "get_type_hint example_frames string_annotation = Inr ''List[ int ]''
   \<and> parse_annotation example_frames ''List[ int ]'' = Some (Subscript (Name ''List'') (Name ''int''))
   \<and> get_type_hint example_frames (Subscript (Name ''List'') (Name ''int'')) = Inr ''List[int]''
   \<and> ''List[int]'' \<noteq> ''List[ int ]''
   \<and> get_type_hint example_frames (Subscript (Name ''Literal'') (Constant (CInt big_int)))
       = Inl ValueError
   \<and> get_type_hint example_frames (subscript_chain example_frames) = Inl RecursionError"
proof -
  have "get_type_hint example_frames string_annotation = Inr ''List[ int ]''
   \<and> parse_annotation example_frames ''List[ int ]'' = Some (Subscript (Name ''List'') (Name ''int''))
   \<and> get_type_hint example_frames (Subscript (Name ''List'') (Name ''int'')) = Inr ''List[int]''
   \<and> ''List[int]'' \<noteq> ''List[ int ]''"
    by code_simp
  then show ?thesis
    by (simp add: example_frames_def get_type_hint_frames str_int_big subscript_chain_raises)
qed

end
